theory Spec2Isabelle
  imports Complex_Main "HOL-Library.Multiset"
begin

section \<open>Simulation parameters (main.py, lines 6-13)\<close>

definition SIM_TIME :: real where "SIM_TIME = 500"
definition LAMBDA :: real where "LAMBDA = 1 / 4"
definition MU :: real where "MU = 1 / 5"
definition NUM_MACHINES :: nat where "NUM_MACHINES = 2"
definition REPAIR_DURATION :: int where "REPAIR_DURATION = 30"
definition REPAIR_INTERVAL_MIN :: int where "REPAIR_INTERVAL_MIN = 40"
definition REPAIR_INTERVAL_MAX :: int where "REPAIR_INTERVAL_MAX = 60"

section \<open>The random module\<close>

text \<open>
  Python's \<open>random\<close> module is one seeded generator shared by every caller. It is taken
  as a parameter: a generator state of an arbitrary type \<open>'g\<close> and the two draws the
  program makes, each returning the drawn value and the next generator state. The state
  that \<open>random.seed(RANDOM_SEED)\<close> produces is the \<open>'g\<close> handed to the initial state.
  Simulated time is a Python float; it is modelled by a real number, so rounding is not
  part of the model.
\<close>

record 'g sampler =
  expovariate :: "real \<Rightarrow> 'g \<Rightarrow> real \<times> 'g"
  randint :: "int \<Rightarrow> int \<Rightarrow> 'g \<Rightarrow> int \<times> 'g"

text \<open>
  The documented contract of the two draws: \<open>expovariate\<close> with a positive rate is
  \<open>-log(1 - random()) / rate\<close> with \<open>random()\<close> in \<open>[0, 1)\<close>, hence never negative;
  \<open>randint a b\<close> lies in \<open>[a, b]\<close>.
\<close>

definition sampler_ok :: "'g sampler \<Rightarrow> bool" where
  "sampler_ok S \<longleftrightarrow>
     (\<forall>rate g. 0 < rate \<longrightarrow> 0 \<le> fst (expovariate S rate g)) \<and>
     (\<forall>a b g. a \<le> b \<longrightarrow> a \<le> fst (randint S a b g) \<and> fst (randint S a b g) \<le> b)"

section \<open>Processes, requests and events\<close>

text \<open>
  A generator is a resumable value: the place where it is suspended together with the
  local variables that are live there. \<open>Setup_start\<close>, \<open>Track\<close>, \<open>Repair_start\<close>,
  \<open>Car_start\<close> and \<open>Wash_start\<close> are generators that have not run yet (for the two
  loops without loop-carried locals, also the loop head); the other frames are named
  after the \<open>yield\<close> they wait at.
\<close>

datatype frame =
    Setup_start
  | Setup_timeout nat                \<comment> \<open>line 59; car_count\<close>
  | Track                            \<comment> \<open>line 65/68\<close>
  | Repair_start                     \<comment> \<open>line 72\<close>
  | Repair_interval                  \<comment> \<open>line 75\<close>
  | Repair_req1 nat                  \<comment> \<open>line 82; req1\<close>
  | Repair_hold1 nat                 \<comment> \<open>line 83; req1\<close>
  | Repair_req2 nat                  \<comment> \<open>line 90; req2\<close>
  | Repair_hold2 nat                 \<comment> \<open>line 91; req2\<close>
  | Car_start nat                    \<comment> \<open>car(env, carwash, name) before its first step\<close>
  | Car_request nat real nat         \<comment> \<open>line 42; name, arrival_time, request\<close>
  | Car_wash nat nat real            \<comment> \<open>line 48; name, request, start_busy_time\<close>
  | Wash_start nat                   \<comment> \<open>wash(car) before its first step\<close>
  | Wash_timeout nat real            \<comment> \<open>line 31; car, service_time\<close>

text \<open>
  A process is its generator and the callback of its completion event: the frame of the
  process that yielded it, if any. Only \<open>car\<close> yields a process (the wash, line 48).
\<close>

type_synonym process = "frame \<times> frame option"

datatype requester = Car nat | RepairPerson

text \<open>
  A request object of the machine pool. \<open>rid\<close> stands for the object's identity,
  \<open>proc\<close> is the process that made it, \<open>usage_since\<close> the time it was granted, and
  \<open>waiter\<close> the process that yielded it and is resumed when the request event fires.
\<close>

record request =
  rid :: nat
  proc :: requester
  usage_since :: "real option"
  waiter :: process

datatype event =
    Initialize process
  | TimeoutEv process
  | RequestEv request
  | ReleaseEv
  | ProcessEv process
  | StopEv

type_synonym entry = "real \<times> nat \<times> nat \<times> event"

definition URGENT :: nat where "URGENT = 0"
definition NORMAL :: nat where "NORMAL = 1"

record resource =
  capacity :: nat
  users :: "request list"
  put_queue :: "request list"

text \<open>
  The environment (clock, event counter, event heap), the carwash's machine pool, the
  generator state of \<open>random\<close> and the module's tracking variables (lines 16-20).
\<close>

record 'g state =
  now :: real
  eid :: nat
  queue :: "entry list"
  machine :: resource
  next_rid :: nat
  rng :: 'g
  wait_times :: "real list"
  queue_lengths :: "nat list"
  queue_time :: "real list"
  processed_cars :: nat
  busy_time :: real

datatype error = NegativeDelay | EmptySchedule | ZeroDivisionError

datatype 'g outcome = Continue "'g state" | Stopped "'g state" | Failed error

section \<open>Event queue and clock\<close>

text \<open>
  Modelled from the spec: the scheduler is the simpy library's \<open>Environment\<close>, which is
  not part of the repository. Spec section 4.1: an event is inserted at \<open>now + delay\<close>
  with a sequence number that grows at every insertion; a step pops the earliest event by
  time and sequence and advances \<open>now\<close> to its time. In simpy the key is
  \<open>(time, priority, eid)\<close>: process starts and the stop event of \<open>run(until)\<close> are
  urgent (priority 0), everything else is normal (priority 1).
\<close>

definition schedule :: "event \<Rightarrow> nat \<Rightarrow> real \<Rightarrow> 'g state \<Rightarrow> 'g state" where
  "schedule ev prio delay s =
     s\<lparr>queue := queue s @ [(now s + delay, prio, eid s, ev)], eid := Suc (eid s)\<rparr>"

definition before :: "entry \<Rightarrow> entry \<Rightarrow> bool" where
  "before a b =
     (case a of (ta, pa, ia, _) \<Rightarrow> case b of (tb, pb, ib, _) \<Rightarrow>
        ta < tb \<or> (ta = tb \<and> (pa < pb \<or> (pa = pb \<and> ia < ib))))"

fun pop_from :: "entry \<Rightarrow> entry list \<Rightarrow> entry \<times> entry list" where
  "pop_from e [] = (e, [])"
| "pop_from e (x # xs) =
     (case pop_from x xs of (m, r) \<Rightarrow> if before m e then (m, e # r) else (e, x # xs))"

definition pop :: "entry list \<Rightarrow> (entry \<times> entry list) option" where
  "pop q = (case q of [] \<Rightarrow> None | e # es \<Rightarrow> Some (pop_from e es))"

text \<open>
  \<open>env.timeout(delay)\<close>: a negative delay raises ValueError inside the calling
  generator; the process fails and the error leaves \<open>env.run\<close>, which ends the program.
  The model ends the run at once with \<open>NegativeDelay\<close>.
\<close>

definition timeout :: "real \<Rightarrow> process \<Rightarrow> 'g state \<Rightarrow> error + 'g state" where
  "timeout delay p s =
     (if delay < 0 then Inl NegativeDelay else Inr (schedule (TimeoutEv p) NORMAL delay s))"

definition env_process :: "process \<Rightarrow> 'g state \<Rightarrow> 'g state" where
  "env_process p s = schedule (Initialize p) URGENT 0 s"

section \<open>Resource pool\<close>

text \<open>
  Modelled from the spec: the machine pool is simpy's \<open>Resource\<close>, which is not part of
  the repository. Spec section 4.2: a request is granted at once when a slot is free and
  otherwise joins the tail of the wait queue; a release frees the slot and grants the
  head of the wait queue, whose resumption flows through the event queue at the current
  time. In simpy every request is appended to \<open>put_queue\<close> and the head of that queue is
  then offered a slot (\<open>trigger_put\<close>); a release removes the request from \<open>users\<close> and
  schedules a release event, and the head of the queue is offered the slot when that event
  fires. \<open>in_use\<close> is \<open>length (users r)\<close>, the wait queue is \<open>put_queue r\<close>.
\<close>

definition trigger_put :: "'g state \<Rightarrow> 'g state" where
  "trigger_put s =
     (case put_queue (machine s) of
        [] \<Rightarrow> s
      | r # rest \<Rightarrow>
          if length (users (machine s)) < capacity (machine s)
          then let r' = r\<lparr>usage_since := Some (now s)\<rparr>
               in schedule (RequestEv r') NORMAL 0
                    (s\<lparr>machine := (machine s)\<lparr>users := users (machine s) @ [r'],
                                               put_queue := rest\<rparr>\<rparr>)
          else s)"

text \<open>
  \<open>machine.request()\<close> followed by \<open>yield\<close> of the request, as both callers do: the
  new request, waited for by the process \<open>k\<close> builds from the request, joins the queue.
\<close>

definition request :: "requester \<Rightarrow> (nat \<Rightarrow> process) \<Rightarrow> 'g state \<Rightarrow> 'g state" where
  "request p k s =
     (let r = \<lparr>rid = next_rid s, proc = p, usage_since = None, waiter = k (next_rid s)\<rparr>
      in trigger_put
           (s\<lparr>next_rid := Suc (next_rid s),
              machine := (machine s)\<lparr>put_queue := put_queue (machine s) @ [r]\<rparr>\<rparr>))"

fun remove_rid :: "nat \<Rightarrow> request list \<Rightarrow> request list" where
  "remove_rid i [] = []"
| "remove_rid i (r # rs) = (if rid r = i then rs else r # remove_rid i rs)"

text \<open>Leaving the \<open>with\<close> block of a granted request: \<open>machine.release(request)\<close>.\<close>

definition release :: "nat \<Rightarrow> 'g state \<Rightarrow> 'g state" where
  "release i s =
     schedule ReleaseEv NORMAL 0
       (s\<lparr>machine := (machine s)\<lparr>users := remove_rid i (users (machine s))\<rparr>\<rparr>)"

section \<open>Domain processes (main.py, lines 28-93)\<close>

definition repair_loop :: "'g sampler \<Rightarrow> frame option \<Rightarrow> 'g state \<Rightarrow> error + 'g state" where
  "repair_loop S w s =
     (case randint S REPAIR_INTERVAL_MIN REPAIR_INTERVAL_MAX (rng s) of
        (repair_interval, g) \<Rightarrow>
          timeout (of_int repair_interval) (Repair_interval, w) (s\<lparr>rng := g\<rparr>))"

definition setup_loop :: "'g sampler \<Rightarrow> nat \<Rightarrow> frame option \<Rightarrow> 'g state \<Rightarrow> error + 'g state" where
  "setup_loop S car_count w s =
     (case expovariate S LAMBDA (rng s) of
        (interarrival_time, g) \<Rightarrow>
          timeout interarrival_time (Setup_timeout car_count, w) (s\<lparr>rng := g\<rparr>))"

text \<open>
  Run a generator from its frame to its next \<open>yield\<close> or to its end; \<open>print\<close> calls
  are left out.
  \<^item> \<open>setup\<close> (lines 54-61): \<open>Setup_start\<close> runs lines 56-59, \<open>Setup_timeout\<close> lines
    60-61 and then 58-59 again.
  \<^item> \<open>track_queue_length\<close> (lines 63-68): \<open>Track\<close> runs lines 66-68.
  \<^item> \<open>staggered_repair_person\<close> (lines 70-93): \<open>Repair_start\<close> runs lines 74-75,
    \<open>Repair_interval\<close> lines 77-82, \<open>Repair_req1\<close> line 83, \<open>Repair_hold1\<close> leaves the
    first \<open>with\<close> block, which releases \<open>req1\<close>, and runs lines 85-90, \<open>Repair_req2\<close>
    line 91, \<open>Repair_hold2\<close> leaves the second \<open>with\<close> block and runs lines 93 and 74-75.
  \<^item> \<open>car\<close> (lines 34-52): \<open>Car_start\<close> runs lines 38-42, \<open>Car_request\<close> lines 44-48,
    \<open>Car_wash\<close> lines 49-52 and leaves the \<open>with\<close> block, which releases the request.
    Nobody yields a car process (line 61 drops it), so a car has no callback of its own.
  \<^item> \<open>wash\<close> (lines 28-32): \<open>Wash_start\<close> runs lines 30-31, \<open>Wash_timeout\<close> line 32.
\<close>

fun resume :: "'g sampler \<Rightarrow> process \<Rightarrow> 'g state \<Rightarrow> error + 'g state" where
  "resume S (Setup_start, w) s = setup_loop S 0 w s"
| "resume S (Setup_timeout car_count, w) s =
     setup_loop S (Suc car_count) w (env_process (Car_start (Suc car_count), None) s)"
| "resume S (Track, w) s =
     timeout 1 (Track, w)
       (s\<lparr>queue_lengths := queue_lengths s @ [length (put_queue (machine s))],
          queue_time := queue_time s @ [now s]\<rparr>)"
| "resume S (Repair_start, w) s = repair_loop S w s"
| "resume S (Repair_interval, w) s =
     Inr (request RepairPerson (\<lambda>req1. (Repair_req1 req1, w)) s)"
| "resume S (Repair_req1 req1, w) s =
     timeout (of_int (REPAIR_DURATION div 2)) (Repair_hold1 req1, w) s"
| "resume S (Repair_hold1 req1, w) s =
     Inr (request RepairPerson (\<lambda>req2. (Repair_req2 req2, w)) (release req1 s))"
| "resume S (Repair_req2 req2, w) s =
     timeout (of_int (REPAIR_DURATION div 2)) (Repair_hold2 req2, w) s"
| "resume S (Repair_hold2 req2, w) s = repair_loop S w (release req2 s)"
| "resume S (Car_start name, w) s =
     Inr (request (Car name) (\<lambda>req. (Car_request name (now s) req, w)) s)"
| "resume S (Car_request name arrival_time req, w) s =
     Inr (env_process (Wash_start name, Some (Car_wash name req (now s)))
            (s\<lparr>wait_times := wait_times s @ [now s - arrival_time]\<rparr>))"
| "resume S (Car_wash name req start_busy_time, w) s =
     Inr (schedule (ProcessEv (Car_wash name req start_busy_time, w)) NORMAL 0
            (release req
               (s\<lparr>busy_time := busy_time s + (now s - start_busy_time),
                  processed_cars := Suc (processed_cars s)\<rparr>)))"
| "resume S (Wash_start car, w) s =
     (case expovariate S MU (rng s) of
        (service_time, g) \<Rightarrow>
          timeout service_time (Wash_timeout car service_time, w) (s\<lparr>rng := g\<rparr>))"
| "resume S (Wash_timeout car service_time, w) s =
     Inr (schedule (ProcessEv (Wash_timeout car service_time, w)) NORMAL 0 s)"

section \<open>The run loop\<close>

definition lift :: "error + 'g state \<Rightarrow> 'g outcome" where
  "lift r = (case r of Inl e \<Rightarrow> Failed e | Inr s \<Rightarrow> Continue s)"

text \<open>The callbacks of the popped event, by the kind of event.\<close>

fun fire :: "'g sampler \<Rightarrow> event \<Rightarrow> 'g state \<Rightarrow> 'g outcome" where
  "fire S (Initialize p) s = lift (resume S p s)"
| "fire S (TimeoutEv p) s = lift (resume S p s)"
| "fire S (RequestEv r) s = lift (resume S (waiter r) s)"
| "fire S ReleaseEv s = Continue (trigger_put s)"
| "fire S (ProcessEv p) s =
     (case snd p of None \<Rightarrow> Continue s | Some k \<Rightarrow> lift (resume S (k, None) s))"
| "fire S StopEv s = Stopped s"

definition step :: "'g sampler \<Rightarrow> 'g state \<Rightarrow> 'g outcome" where
  "step S s =
     (case pop (queue s) of
        None \<Rightarrow> Failed EmptySchedule
      | Some ((t, p, i, ev), q) \<Rightarrow> fire S ev (s\<lparr>now := t, queue := q\<rparr>))"

text \<open>The state of the run after at most \<open>n\<close> steps.\<close>

fun exec :: "'g sampler \<Rightarrow> nat \<Rightarrow> 'g state \<Rightarrow> 'g outcome" where
  "exec S 0 s = Continue s"
| "exec S (Suc n) s = (case exec S n s of Continue s' \<Rightarrow> step S s' | r \<Rightarrow> r)"

text \<open>Lines 140-147: the environment, the carwash, the three processes, \<open>run(until)\<close>.\<close>

definition environment :: "'g \<Rightarrow> 'g state" where
  "environment g =
     \<lparr>now = 0, eid = 0, queue = [],
      machine = \<lparr>capacity = NUM_MACHINES, users = [], put_queue = []\<rparr>,
      next_rid = 0, rng = g, wait_times = [], queue_lengths = [], queue_time = [],
      processed_cars = 0, busy_time = 0\<rparr>"

definition init :: "'g \<Rightarrow> 'g state" where
  "init g =
     schedule StopEv URGENT (SIM_TIME - 0)
       (env_process (Repair_start, None)
          (env_process (Track, None)
             (env_process (Setup_start, None) (environment g))))"

definition state_of :: "'g outcome \<Rightarrow> 'g state option" where
  "state_of r = (case r of Continue s \<Rightarrow> Some s | Stopped s \<Rightarrow> Some s | Failed e \<Rightarrow> None)"

section \<open>Metrics (main.py, lines 95-104)\<close>

definition py_div :: "real \<Rightarrow> real \<Rightarrow> error + real" where
  "py_div a b = (if b = 0 then Inl ZeroDivisionError else Inr (a / b))"

record metrics =
  avg_wait_time :: real
  avg_queue_length :: real
  utilization :: real
  throughput :: real

definition average :: "real list \<Rightarrow> error + real" where
  "average xs = (if xs \<noteq> [] then py_div (sum_list xs) (real (length xs)) else Inr 0)"

definition calculate_metrics :: "'g state \<Rightarrow> error + metrics" where
  "calculate_metrics s =
     (case average (wait_times s) of
        Inl e \<Rightarrow> Inl e
      | Inr w \<Rightarrow>
         (case average (map real (queue_lengths s)) of
            Inl e \<Rightarrow> Inl e
          | Inr q \<Rightarrow>
             (case py_div (busy_time s) (SIM_TIME * real NUM_MACHINES) of
                Inl e \<Rightarrow> Inl e
              | Inr u \<Rightarrow>
                 (case py_div (real (processed_cars s)) SIM_TIME of
                    Inl e \<Rightarrow> Inl e
                  | Inr t \<Rightarrow>
                      Inr \<lparr>avg_wait_time = w, avg_queue_length = q,
                           utilization = u, throughput = t\<rparr>))))"

section \<open>Reading a state\<close>


fun time_of :: "entry \<Rightarrow> real" where "time_of (t, p, i, ev) = t"

fun eid_of :: "entry \<Rightarrow> nat" where "eid_of (t, p, i, ev) = i"

fun ev_of :: "entry \<Rightarrow> event" where "ev_of (t, p, i, ev) = ev"


text \<open>
  The request object that \<open>machine.request()\<close> creates, the state once it has joined the
  wait queue, and the grant that \<open>trigger_put\<close> performs, if any.
\<close>


definition grantable :: "'g state \<Rightarrow> bool" where
  "grantable s \<longleftrightarrow> put_queue (machine s) \<noteq> [] \<and> length (users (machine s)) < capacity (machine s)"

definition granted :: "'g state \<Rightarrow> request" where
  "granted s = (hd (put_queue (machine s)))\<lparr>usage_since := Some (now s)\<rparr>"

definition new_request :: "requester \<Rightarrow> (nat \<Rightarrow> process) \<Rightarrow> 'g state \<Rightarrow> request" where
  "new_request p k s = \<lparr>rid = next_rid s, proc = p, usage_since = None, waiter = k (next_rid s)\<rparr>"

definition enqueued :: "requester \<Rightarrow> (nat \<Rightarrow> process) \<Rightarrow> 'g state \<Rightarrow> 'g state" where
  "enqueued p k s = s\<lparr>next_rid := Suc (next_rid s),
     machine := (machine s)\<lparr>put_queue := put_queue (machine s) @ [new_request p k s]\<rparr>\<rparr>"


text \<open>The number of machines that the repair person holds, that is, keeps offline.\<close>


definition offline :: "'g state \<Rightarrow> nat" where
  "offline s = length (filter (\<lambda>r. proc r = RepairPerson) (users (machine s)))"


text \<open>Sums over the pending events, and over the pending events and the waiting requests.\<close>


definition qsum :: "(event \<Rightarrow> 'a::comm_monoid_add) \<Rightarrow> 'g state \<Rightarrow> 'a" where
  "qsum f s = (\<Sum>e\<leftarrow>queue s. f (ev_of e))"

definition tot :: "(event \<Rightarrow> 'a::comm_monoid_add) \<Rightarrow> 'g state \<Rightarrow> 'a" where
  "tot f s = qsum f s + (\<Sum>r\<leftarrow>put_queue (machine s). f (RequestEv r))"

definition usage_free :: "(event \<Rightarrow> 'a) \<Rightarrow> bool" where
  "usage_free f \<longleftrightarrow> (\<forall>r u. f (RequestEv (r\<lparr>usage_since := u\<rparr>)) = f (RequestEv r))"


text \<open>
  \<open>car_count\<close> is a local variable of the one \<open>setup\<close> generator: it is read off the
  frame of that generator, which waits in the event queue.
\<close>


fun frame_count :: "frame \<Rightarrow> nat" where
  "frame_count (Setup_timeout c) = c"
| "frame_count f = 0"

fun is_setup :: "frame \<Rightarrow> nat" where
  "is_setup Setup_start = 1"
| "is_setup (Setup_timeout c) = 1"
| "is_setup f = 0"

fun setup_count :: "event \<Rightarrow> nat" where
  "setup_count (Initialize p) = frame_count (fst p)"
| "setup_count (TimeoutEv p) = frame_count (fst p)"
| "setup_count ev = 0"

fun setup_live :: "event \<Rightarrow> nat" where
  "setup_live (Initialize p) = is_setup (fst p)"
| "setup_live (TimeoutEv p) = is_setup (fst p)"
| "setup_live ev = 0"

definition car_count :: "'g state \<Rightarrow> nat" where
  "car_count s = qsum setup_count s"


text \<open>The requesters of the waiting and of the granted requests, for a view of a run.\<close>

definition waiting_procs :: "'g outcome \<Rightarrow> requester list" where
  "waiting_procs r = (case state_of r of None \<Rightarrow> [] | Some s \<Rightarrow> map proc (put_queue (machine s)))"

definition using_procs :: "'g outcome \<Rightarrow> requester list" where
  "using_procs r = (case state_of r of None \<Rightarrow> [] | Some s \<Rightarrow> map proc (users (machine s)))"

text \<open>
  A sampler for concrete runs: every inter-arrival gap is 13 minutes, every wash lasts 30
  minutes, and \<open>randint\<close> returns its lower bound.
\<close>

definition demo :: "unit sampler" where
  "demo = \<lparr>expovariate = (\<lambda>rate g. (if rate = LAMBDA then 13 else 30, g)),
           randint = (\<lambda>a b g. (a, g))\<rparr>"

text \<open>
  The sample sequences and totals that a run has produced, and the runs that the event
  heap allows when it is free to hand out any pending event that no other event precedes
  and to keep the remaining events in any order: the rules follow \<open>step\<close> and
  \<open>exec\<close>.
\<close>

definition samples :: "'g outcome \<Rightarrow> (real list \<times> nat list \<times> real list \<times> nat \<times> real) option" where
  "samples r = (case state_of r of None \<Rightarrow> None
     | Some s \<Rightarrow> Some (wait_times s, queue_lengths s, queue_time s, processed_cars s, busy_time s))"

definition earliest :: "entry list \<Rightarrow> entry \<Rightarrow> bool" where
  "earliest q e \<longleftrightarrow> e \<in> set q \<and> (\<forall>x \<in> set q. \<not> before x e)"

inductive run :: "'g sampler \<Rightarrow> 'g state \<Rightarrow> nat \<Rightarrow> 'g outcome \<Rightarrow> bool" for S s0 where
  run_start: "run S s0 0 (Continue s0)"
| run_step: "run S s0 n (Continue s) \<Longrightarrow> earliest (queue s) e \<Longrightarrow>
     mset (queue s) = add_mset e (mset q) \<Longrightarrow>
     run S s0 (Suc n) (fire S (ev_of e) (s\<lparr>now := time_of e, queue := q\<rparr>))"
| run_empty: "run S s0 n (Continue s) \<Longrightarrow> queue s = [] \<Longrightarrow> run S s0 (Suc n) (Failed EmptySchedule)"
| run_stopped: "run S s0 n (Stopped s) \<Longrightarrow> run S s0 (Suc n) (Stopped s)"
| run_failed: "run S s0 n (Failed e) \<Longrightarrow> run S s0 (Suc n) (Failed e)"

text \<open>Two states that differ in the order of the pending events only.\<close>

definition sim :: "'g state \<Rightarrow> 'g state \<Rightarrow> bool" where
  "sim s s' \<longleftrightarrow> mset (queue s') = mset (queue s) \<and> s' = s\<lparr>queue := queue s'\<rparr>"

fun osim :: "'g outcome \<Rightarrow> 'g outcome \<Rightarrow> bool" where
  "osim (Continue s) (Continue s') = sim s s'"
| "osim (Stopped s) (Stopped s') = sim s s'"
| "osim (Failed e) (Failed e') = (e = e')"
| "osim r r' = False"

section \<open>Invariants of a run\<close>

text \<open>What holds of an outcome that is a state, and of an outcome that continues.\<close>


definition post :: "('g state \<Rightarrow> bool) \<Rightarrow> 'g outcome \<Rightarrow> bool" where
  "post P r = (case r of Continue s \<Rightarrow> P s | Stopped s \<Rightarrow> P s | Failed e \<Rightarrow> True)"

definition post_c :: "('g state \<Rightarrow> bool) \<Rightarrow> 'g outcome \<Rightarrow> bool" where
  "post_c P r = (case r of Continue s \<Rightarrow> P s | Stopped s \<Rightarrow> True | Failed e \<Rightarrow> True)"


declare resume.simps(13) [simp del]

text \<open>
  The events that occur in a run: which generator frames each kind of event carries, and
  that a request is waited for by the process that made it.
\<close>


inductive ev_ok :: "event \<Rightarrow> bool" where
  init_setup: "ev_ok (Initialize (Setup_start, None))"
| init_track: "ev_ok (Initialize (Track, None))"
| init_repair: "ev_ok (Initialize (Repair_start, None))"
| init_car: "ev_ok (Initialize (Car_start n, None))"
| init_wash: "ev_ok (Initialize (Wash_start n, Some (Car_wash n i st)))"
| to_setup: "ev_ok (TimeoutEv (Setup_timeout c, None))"
| to_track: "ev_ok (TimeoutEv (Track, None))"
| to_interval: "ev_ok (TimeoutEv (Repair_interval, None))"
| to_hold1: "ev_ok (TimeoutEv (Repair_hold1 i, None))"
| to_hold2: "ev_ok (TimeoutEv (Repair_hold2 i, None))"
| to_wash: "ev_ok (TimeoutEv (Wash_timeout n d, Some (Car_wash n i st)))"
| req_car: "waiter r = (Car_request n a (rid r), None) \<Longrightarrow> proc r = Car n \<Longrightarrow> ev_ok (RequestEv r)"
| req_rep1: "waiter r = (Repair_req1 (rid r), None) \<Longrightarrow> proc r = RepairPerson \<Longrightarrow> ev_ok (RequestEv r)"
| req_rep2: "waiter r = (Repair_req2 (rid r), None) \<Longrightarrow> proc r = RepairPerson \<Longrightarrow> ev_ok (RequestEv r)"
| release: "ev_ok ReleaseEv"
| proc_wash: "ev_ok (ProcessEv (Wash_timeout n d, Some (Car_wash n i st)))"
| proc_car: "ev_ok (ProcessEv (Car_wash n i st, None))"
| stop: "ev_ok StopEv"

definition shape :: "'g state \<Rightarrow> bool" where
  "shape s \<longleftrightarrow> (\<forall>e \<in> set (queue s). ev_ok (ev_of e)) \<and>
               (\<forall>r \<in> set (put_queue (machine s)). ev_ok (RequestEv r))"


text \<open>The clock never runs ahead of a pending event, and the stop event is pending.\<close>


definition timed :: "'g state \<Rightarrow> bool" where
  "timed s \<longleftrightarrow> 0 \<le> now s \<and> (\<forall>e \<in> set (queue s). now s \<le> time_of e)"

definition stop_pending :: "'g state \<Rightarrow> bool" where
  "stop_pending s \<longleftrightarrow> (\<exists>i. (SIM_TIME, URGENT, i, StopEv) \<in> set (queue s))"


text \<open>The pool never grants more slots than it has; event and request identities are unique.\<close>


definition pool_ok :: "resource \<Rightarrow> bool" where
  "pool_ok m \<longleftrightarrow> 0 \<le> int (length (users m)) \<and> length (users m) \<le> capacity m \<and> capacity m = NUM_MACHINES"

definition eids_ok :: "'g state \<Rightarrow> bool" where
  "eids_ok s \<longleftrightarrow> (\<forall>e \<in> set (queue s). eid_of e < eid s) \<and> distinct (map eid_of (queue s))"

definition fresh :: "'g state \<Rightarrow> bool" where
  "fresh s \<longleftrightarrow> distinct (map rid (users (machine s) @ put_queue (machine s))) \<and>
     (\<forall>r \<in> set (users (machine s) @ put_queue (machine s)). rid r < next_rid s)"


text \<open>
  Every granted request is held by exactly one process: the one whose request event is
  pending, the car whose wash is in progress, or the repair person during a repair.
\<close>


definition pair_of :: "request \<Rightarrow> nat \<times> requester" where
  "pair_of r = (rid r, proc r)"

fun holds :: "frame \<Rightarrow> (nat \<times> requester) multiset" where
  "holds (Repair_hold1 i) = {#(i, RepairPerson)#}"
| "holds (Repair_hold2 i) = {#(i, RepairPerson)#}"
| "holds (Car_wash n i st) = {#(i, Car n)#}"
| "holds f = {#}"

fun holds_p :: "process \<Rightarrow> (nat \<times> requester) multiset" where
  "holds_p (f, w) = holds f + (case w of None \<Rightarrow> {#} | Some k \<Rightarrow> holds k)"

fun held :: "event \<Rightarrow> (nat \<times> requester) multiset" where
  "held (Initialize p) = holds_p p"
| "held (TimeoutEv p) = holds_p p"
| "held (RequestEv r) = {#pair_of r#}"
| "held (ProcessEv p) = (case snd p of None \<Rightarrow> {#} | Some k \<Rightarrow> holds k)"
| "held ReleaseEv = {#}"
| "held StopEv = {#}"

definition users_pairs :: "'g state \<Rightarrow> (nat \<times> requester) multiset" where
  "users_pairs s = mset (map pair_of (users (machine s)))"

definition held_ok :: "'g state \<Rightarrow> bool" where
  "held_ok s \<longleftrightarrow> users_pairs s = qsum held s"

fun is_rep :: "frame \<Rightarrow> nat" where
  "is_rep Repair_start = 1"
| "is_rep Repair_interval = 1"
| "is_rep (Repair_req1 i) = 1"
| "is_rep (Repair_hold1 i) = 1"
| "is_rep (Repair_req2 i) = 1"
| "is_rep (Repair_hold2 i) = 1"
| "is_rep f = 0"

fun rep_live :: "event \<Rightarrow> nat" where
  "rep_live (Initialize p) = is_rep (fst p)"
| "rep_live (TimeoutEv p) = is_rep (fst p)"
| "rep_live (RequestEv r) = (if proc r = RepairPerson then 1 else 0)"
| "rep_live ev = 0"


text \<open>The cars alive, and what has been spawned and processed.\<close>


fun is_car :: "frame \<Rightarrow> nat" where
  "is_car (Car_start n) = 1"
| "is_car (Car_request n a i) = 1"
| "is_car (Car_wash n i st) = 1"
| "is_car f = 0"

fun car_live :: "event \<Rightarrow> nat" where
  "car_live (Initialize p) = is_car (fst p) + (case snd p of None \<Rightarrow> 0 | Some k \<Rightarrow> is_car k)"
| "car_live (TimeoutEv p) = is_car (fst p) + (case snd p of None \<Rightarrow> 0 | Some k \<Rightarrow> is_car k)"
| "car_live (RequestEv r) = (case proc r of Car n \<Rightarrow> 1 | RepairPerson \<Rightarrow> 0)"
| "car_live (ProcessEv p) = (case snd p of None \<Rightarrow> 0 | Some k \<Rightarrow> is_car k)"
| "car_live ev = 0"

definition cars_ok :: "'g state \<Rightarrow> bool" where
  "cars_ok s \<longleftrightarrow> processed_cars s + tot car_live s = car_count s \<and> qsum setup_live s = 1"

fun entry_ok :: "entry \<Rightarrow> bool" where
  "entry_ok (t, p, i, RequestEv r) = (usage_since r = Some t)"
| "entry_ok (t, p, i, Initialize (Wash_start n, Some (Car_wash m j st))) = (t = st)"
| "entry_ok (t, p, i, TimeoutEv (Wash_timeout n d, Some (Car_wash m j st))) = (t = st + d)"
| "entry_ok (t, p, i, ProcessEv (Wash_timeout n d, Some (Car_wash m j st))) = (t = st + d)"
| "entry_ok e = True"

definition entries_ok :: "'g state \<Rightarrow> bool" where
  "entries_ok s \<longleftrightarrow> (\<forall>e \<in> set (queue s). entry_ok e)"


text \<open>The washes in progress, with the time each began.\<close>


fun nwash_w :: "frame option \<Rightarrow> nat" where
  "nwash_w (Some (Car_wash n i st)) = 1"
| "nwash_w w = 0"

fun wst_w :: "frame option \<Rightarrow> real" where
  "wst_w (Some (Car_wash n i st)) = st"
| "wst_w w = 0"

fun nwash :: "event \<Rightarrow> nat" where
  "nwash (Initialize p) = nwash_w (snd p)"
| "nwash (TimeoutEv p) = nwash_w (snd p)"
| "nwash (ProcessEv p) = nwash_w (snd p)"
| "nwash ev = 0"

fun wst :: "event \<Rightarrow> real" where
  "wst (Initialize p) = wst_w (snd p)"
| "wst (TimeoutEv p) = wst_w (snd p)"
| "wst (ProcessEv p) = wst_w (snd p)"
| "wst ev = 0"

definition wash_ok :: "'g state \<Rightarrow> bool" where
  "wash_ok s \<longleftrightarrow> 0 \<le> busy_time s \<and>
     busy_time s + real (qsum nwash s) * now s - qsum wst s \<le> real (capacity (machine s)) * now s \<and>
     (\<forall>e \<in> set (queue s). wst (ev_of e) \<le> now s)"

definition run_inv :: "'g state \<Rightarrow> bool" where
  "run_inv s \<longleftrightarrow> shape s \<and> timed s \<and> pool_ok (machine s) \<and> eids_ok s \<and> fresh s \<and> held_ok s \<and>
     tot rep_live s \<le> 1 \<and> cars_ok s \<and> entries_ok s \<and> wash_ok s \<and> now s \<le> SIM_TIME"

section \<open>Lemmas\<close>

lemma before_irrefl: "\<not> before a a"
  by (auto simp: before_def split: prod.splits)

lemma before_negtrans: "\<not> before x m \<Longrightarrow> \<not> before m e \<Longrightarrow> \<not> before x e"
  by (auto simp: before_def split: prod.splits)

lemma before_asym: "before a b \<Longrightarrow> \<not> before b a"
  by (auto simp: before_def split: prod.splits)

lemma pop_from_mset: "pop_from e xs = (m, r) \<Longrightarrow> mset (m # r) = mset (e # xs)"
proof (induction xs arbitrary: e m r)
  case Nil
  then show ?case by simp
next
  case (Cons x xs)
  obtain m' r' where p: "pop_from x xs = (m', r')" by (cases "pop_from x xs")
  from Cons.IH [OF p] Cons.prems p show ?case
    by (auto split: if_splits)
qed

lemma pop_from_min: "pop_from e xs = (m, r) \<Longrightarrow> x \<in> set (e # xs) \<Longrightarrow> \<not> before x m"
proof (induction xs arbitrary: e m r x)
  case Nil
  then show ?case by (simp add: before_irrefl)
next
  case (Cons y ys)
  obtain m' r' where p: "pop_from y ys = (m', r')" by (cases "pop_from y ys")
  have ih: "\<And>z. z \<in> set (y # ys) \<Longrightarrow> \<not> before z m'" using Cons.IH [OF p] by blast
  show ?case
  proof (cases "before m' e")
    case True
    then have "m = m'" using Cons.prems(1) p by simp
    show ?thesis
    proof (cases "x = e")
      case True
      then show ?thesis using \<open>before m' e\<close> \<open>m = m'\<close> before_asym by blast
    next
      case False
      then have "x \<in> set (y # ys)" using Cons.prems(2) by simp
      then show ?thesis using ih \<open>m = m'\<close> by blast
    qed
  next
    case False
    then have "m = e" using Cons.prems(1) p by simp
    show ?thesis
    proof (cases "x = e")
      case True
      then show ?thesis using \<open>m = e\<close> before_irrefl by blast
    next
      case xe: False
      then have "x \<in> set (y # ys)" using Cons.prems(2) by simp
      then have "\<not> before x m'" using ih by blast
      then show ?thesis using False \<open>m = e\<close> before_negtrans by blast
    qed
  qed
qed

lemma pop_mset: "pop q = Some (m, r) \<Longrightarrow> mset q = add_mset m (mset r)"
  by (auto simp: pop_def split: list.splits dest: pop_from_mset)

lemma pop_min: "pop q = Some (m, r) \<Longrightarrow> x \<in> set q \<Longrightarrow> \<not> before x m"
  by (auto simp: pop_def split: list.splits dest: pop_from_min)

lemma pop_None: "pop q = None \<longleftrightarrow> q = []"
  by (auto simp: pop_def split: list.splits)

lemma pop_set: "pop q = Some (m, r) \<Longrightarrow> set q = insert m (set r)"
  by (drule pop_mset) (metis set_mset_add_mset_insert set_mset_mset)

lemma pop_sum:
  fixes f :: "entry \<Rightarrow> 'a::comm_monoid_add"
  shows "pop q = Some (m, r) \<Longrightarrow> sum_list (map f q) = f m + sum_list (map f r)"
proof -
  assume "pop q = Some (m, r)"
  then have "mset q = add_mset m (mset r)" by (rule pop_mset)
  then have "sum_mset (image_mset f (mset q)) = sum_mset (image_mset f (add_mset m (mset r)))"
    by simp
  then show ?thesis by (simp add: sum_mset_sum_list [symmetric])
qed

lemma ev_ok_update [simp]: "ev_ok (RequestEv (r\<lparr>usage_since := u\<rparr>)) = ev_ok (RequestEv r)"
  by (auto elim!: ev_ok.cases intro: ev_ok.intros simp: )

lemma shape_trigger_put: "shape s \<Longrightarrow> shape (trigger_put s)"
  by (auto simp: shape_def trigger_put_def schedule_def Let_def split: list.splits)

lemma shape_request: "shape s \<Longrightarrow> ev_ok (RequestEv \<lparr>rid = next_rid s, proc = p, usage_since = None, waiter = k (next_rid s)\<rparr>) \<Longrightarrow> shape (request p k s)"
  unfolding request_def Let_def by (rule shape_trigger_put) (auto simp: shape_def)

lemma shape_release: "shape s \<Longrightarrow> shape (release i s)"
  by (auto simp: shape_def release_def schedule_def intro: ev_ok.intros)

lemma shape_schedule: "shape s \<Longrightarrow> ev_ok ev \<Longrightarrow> shape (schedule ev p d s)"
  by (auto simp: shape_def schedule_def)

lemma shape_upd [simp]:
  "shape (s\<lparr>rng := g\<rparr>) = shape s"
  "shape (s\<lparr>wait_times := w\<rparr>) = shape s"
  "shape (s\<lparr>queue_lengths := ql\<rparr>) = shape s"
  "shape (s\<lparr>queue_time := qt\<rparr>) = shape s"
  "shape (s\<lparr>busy_time := b\<rparr>) = shape s"
  "shape (s\<lparr>processed_cars := pc\<rparr>) = shape s"
  by (simp_all add: shape_def)

lemma post_simps [simp]:
  "post P (Continue s) = P s"
  "post P (Stopped s) = P s"
  "post P (Failed e) = True"
  "post P (lift (Inr s)) = P s"
  "post P (lift (Inl e)) = True"
  by (simp_all add: post_def lift_def)

lemma post_timeout [simp]:
  "post P (lift (timeout d p s)) = (0 \<le> d \<longrightarrow> P (schedule (TimeoutEv p) NORMAL d s))"
  by (auto simp: timeout_def)

lemma post_state_of: "post P r \<longleftrightarrow> (\<forall>s. state_of r = Some s \<longrightarrow> P s)"
  by (cases r) (simp_all add: state_of_def)

lemma post_setup_loop [simp]:
  "post P (lift (setup_loop S c w s)) =
     (\<forall>d g. expovariate S LAMBDA (rng s) = (d, g) \<longrightarrow> 0 \<le> d \<longrightarrow>
        P (schedule (TimeoutEv (Setup_timeout c, w)) NORMAL d (s\<lparr>rng := g\<rparr>)))"
  by (auto simp: setup_loop_def split: prod.splits)

lemma post_repair_loop [simp]:
  "post P (lift (repair_loop S w s)) =
     (\<forall>n g. randint S REPAIR_INTERVAL_MIN REPAIR_INTERVAL_MAX (rng s) = (n, g) \<longrightarrow> 0 \<le> n \<longrightarrow>
        P (schedule (TimeoutEv (Repair_interval, w)) NORMAL (of_int n) (s\<lparr>rng := g\<rparr>)))"
  by (auto simp: repair_loop_def split: prod.splits)

lemma post_wash_start [simp]:
  "post P (lift (resume S (Wash_start n, w) s)) =
     (\<forall>d g. expovariate S MU (rng s) = (d, g) \<longrightarrow> 0 \<le> d \<longrightarrow>
        P (schedule (TimeoutEv (Wash_timeout n d, w)) NORMAL d (s\<lparr>rng := g\<rparr>)))"
  by (auto simp: resume.simps(13) split: prod.splits)

lemma schedule_sel [simp]:
  "queue (schedule ev p d s) = queue s @ [(now s + d, p, eid s, ev)]"
  "eid (schedule ev p d s) = Suc (eid s)"
  "now (schedule ev p d s) = now s"
  "machine (schedule ev p d s) = machine s"
  "next_rid (schedule ev p d s) = next_rid s"
  "rng (schedule ev p d s) = rng s"
  "wait_times (schedule ev p d s) = wait_times s"
  "queue_lengths (schedule ev p d s) = queue_lengths s"
  "queue_time (schedule ev p d s) = queue_time s"
  "processed_cars (schedule ev p d s) = processed_cars s"
  "busy_time (schedule ev p d s) = busy_time s"
  by (simp_all add: schedule_def)

lemma trigger_put_sel [simp]:
  "queue (trigger_put s) =
     (if grantable s then queue s @ [(now s, NORMAL, eid s, RequestEv (granted s))] else queue s)"
  "eid (trigger_put s) = (if grantable s then Suc (eid s) else eid s)"
  "users (machine (trigger_put s)) =
     (if grantable s then users (machine s) @ [granted s] else users (machine s))"
  "put_queue (machine (trigger_put s)) =
     (if grantable s then tl (put_queue (machine s)) else put_queue (machine s))"
  "capacity (machine (trigger_put s)) = capacity (machine s)"
  "now (trigger_put s) = now s"
  "next_rid (trigger_put s) = next_rid s"
  "rng (trigger_put s) = rng s"
  "wait_times (trigger_put s) = wait_times s"
  "queue_lengths (trigger_put s) = queue_lengths s"
  "queue_time (trigger_put s) = queue_time s"
  "processed_cars (trigger_put s) = processed_cars s"
  "busy_time (trigger_put s) = busy_time s"
  by (simp_all add: trigger_put_def grantable_def granted_def Let_def split: list.splits)

lemma request_alt: "request p k s = trigger_put (enqueued p k s)"
  by (simp add: request_def enqueued_def new_request_def Let_def)

lemma enqueued_sel [simp]:
  "queue (enqueued p k s) = queue s"
  "eid (enqueued p k s) = eid s"
  "users (machine (enqueued p k s)) = users (machine s)"
  "put_queue (machine (enqueued p k s)) = put_queue (machine s) @ [new_request p k s]"
  "capacity (machine (enqueued p k s)) = capacity (machine s)"
  "now (enqueued p k s) = now s"
  "next_rid (enqueued p k s) = Suc (next_rid s)"
  "rng (enqueued p k s) = rng s"
  "wait_times (enqueued p k s) = wait_times s"
  "queue_lengths (enqueued p k s) = queue_lengths s"
  "queue_time (enqueued p k s) = queue_time s"
  "processed_cars (enqueued p k s) = processed_cars s"
  "busy_time (enqueued p k s) = busy_time s"
  by (simp_all add: enqueued_def)

lemma release_sel [simp]:
  "queue (release i s) = queue s @ [(now s, NORMAL, eid s, ReleaseEv)]"
  "eid (release i s) = Suc (eid s)"
  "users (machine (release i s)) = remove_rid i (users (machine s))"
  "put_queue (machine (release i s)) = put_queue (machine s)"
  "capacity (machine (release i s)) = capacity (machine s)"
  "now (release i s) = now s"
  "next_rid (release i s) = next_rid s"
  "rng (release i s) = rng s"
  "wait_times (release i s) = wait_times s"
  "queue_lengths (release i s) = queue_lengths s"
  "queue_time (release i s) = queue_time s"
  "processed_cars (release i s) = processed_cars s"
  "busy_time (release i s) = busy_time s"
  by (simp_all add: release_def schedule_def)

lemma grantable_simps [simp]:
  "grantable (s\<lparr>rng := g\<rparr>) = grantable s"
  "grantable (s\<lparr>now := t, queue := q\<rparr>) = grantable s"
  "grantable (s\<lparr>wait_times := wt\<rparr>) = grantable s"
  "grantable (s\<lparr>busy_time := b, processed_cars := pc\<rparr>) = grantable s"
  "grantable (schedule ev p d s) = grantable s"
  by (simp_all add: grantable_def)

lemma granted_simps [simp]:
  "rid (granted s) = rid (hd (put_queue (machine s)))"
  "proc (granted s) = proc (hd (put_queue (machine s)))"
  "waiter (granted s) = waiter (hd (put_queue (machine s)))"
  "usage_since (granted s) = Some (now s)"
  by (simp_all add: granted_def)

lemmas fire_defs = env_process_def request_alt

lemma shape_fire:
  assumes "ev_ok ev" "shape s"
  shows "post shape (fire S ev s)"
  using assms
  by (cases rule: ev_ok.cases)
     (simp_all add: env_process_def shape_request shape_release shape_schedule
        shape_trigger_put ev_ok.simps)

lemma not_before_time: "\<not> before x m \<Longrightarrow> time_of m \<le> time_of x"
  by (cases x; cases m) (auto simp: before_def)

lemma timed_fire:
  assumes "ev_ok ev" "timed s"
  shows "post (\<lambda>s'. timed s' \<and> now s' = now s) (fire S ev s)"
  using assms
  by (cases rule: ev_ok.cases)
     (simp_all add: fire_defs timed_def REPAIR_DURATION_def)

lemma post_c_simps [simp]:
  "post_c P (Continue s) = P s"
  "post_c P (Stopped s) = True"
  "post_c P (Failed e) = True"
  "post_c P (lift (Inr s)) = P s"
  "post_c P (lift (Inl e)) = True"
  by (simp_all add: post_c_def lift_def)

lemma post_c_timeout [simp]:
  "post_c P (lift (timeout d p s)) = (0 \<le> d \<longrightarrow> P (schedule (TimeoutEv p) NORMAL d s))"
  by (auto simp: timeout_def)

lemma post_c_setup_loop [simp]:
  "post_c P (lift (setup_loop S c w s)) =
     (\<forall>d g. expovariate S LAMBDA (rng s) = (d, g) \<longrightarrow> 0 \<le> d \<longrightarrow>
        P (schedule (TimeoutEv (Setup_timeout c, w)) NORMAL d (s\<lparr>rng := g\<rparr>)))"
  by (auto simp: setup_loop_def split: prod.splits)

lemma post_c_repair_loop [simp]:
  "post_c P (lift (repair_loop S w s)) =
     (\<forall>n g. randint S REPAIR_INTERVAL_MIN REPAIR_INTERVAL_MAX (rng s) = (n, g) \<longrightarrow> 0 \<le> n \<longrightarrow>
        P (schedule (TimeoutEv (Repair_interval, w)) NORMAL (of_int n) (s\<lparr>rng := g\<rparr>)))"
  by (auto simp: repair_loop_def split: prod.splits)

lemma post_c_wash_start [simp]:
  "post_c P (lift (resume S (Wash_start n, w) s)) =
     (\<forall>d g. expovariate S MU (rng s) = (d, g) \<longrightarrow> 0 \<le> d \<longrightarrow>
        P (schedule (TimeoutEv (Wash_timeout n d, w)) NORMAL d (s\<lparr>rng := g\<rparr>)))"
  by (auto simp: resume.simps(13) split: prod.splits)

lemma post_conj: "post (\<lambda>s. P s \<and> Q s) r \<longleftrightarrow> post P r \<and> post Q r"
  by (cases r) simp_all

lemma post_mono: "post P r \<Longrightarrow> (\<And>s. P s \<Longrightarrow> Q s) \<Longrightarrow> post Q r"
  by (cases r) simp_all

lemma post_c_mono: "post_c P r \<Longrightarrow> (\<And>s. P s \<Longrightarrow> Q s) \<Longrightarrow> post_c Q r"
  by (cases r) simp_all

lemma step_post:
  assumes "\<And>t p i ev q. pop (queue s) = Some ((t, p, i, ev), q) \<Longrightarrow>
             post P (fire S ev (s\<lparr>now := t, queue := q\<rparr>))"
  shows "post P (step S s)"
  using assms by (simp add: step_def split: option.splits prod.splits)

lemma step_post_c:
  assumes "\<And>t p i ev q. pop (queue s) = Some ((t, p, i, ev), q) \<Longrightarrow>
             post_c P (fire S ev (s\<lparr>now := t, queue := q\<rparr>))"
  shows "post_c P (step S s)"
  using assms by (simp add: step_def split: option.splits prod.splits)

lemma shape_pop:
  assumes "shape s" "pop (queue s) = Some ((t, p, i, ev), q)"
  shows "ev_ok ev \<and> shape (s\<lparr>now := t, queue := q\<rparr>)"
proof -
  from assms(2) have "set (queue s) = insert (t, p, i, ev) (set q)" by (rule pop_set)
  with assms(1) show ?thesis by (auto simp: shape_def)
qed

lemma timed_pop:
  assumes "timed s" "pop (queue s) = Some ((t, p, i, ev), q)"
  shows "timed (s\<lparr>now := t, queue := q\<rparr>) \<and> now s \<le> t"
proof -
  have set: "set (queue s) = insert (t, p, i, ev) (set q)" using assms(2) by (rule pop_set)
  then have "now s \<le> t" using assms(1) by (auto simp: timed_def)
  moreover have "t \<le> time_of e" if "e \<in> set q" for e
  proof -
    have "e \<in> set (queue s)" using that set by simp
    then have "\<not> before e (t, p, i, ev)" using assms(2) pop_min by blast
    then show ?thesis using not_before_time by fastforce
  qed
  ultimately show ?thesis using assms(1) by (auto simp: timed_def)
qed

lemma stop_fire:
  assumes "ev_ok ev" "stop_pending s"
  shows "post_c stop_pending (fire S ev s)"
  using assms
  by (cases rule: ev_ok.cases) (simp_all add: fire_defs stop_pending_def)

lemma stop_pop:
  assumes "stop_pending s" "pop (queue s) = Some ((t, p, i, ev), q)"
  shows "t \<le> SIM_TIME \<and> (ev \<noteq> StopEv \<longrightarrow> stop_pending (s\<lparr>now := t, queue := q\<rparr>))"
proof -
  from assms(1) obtain j where j: "(SIM_TIME, URGENT, j, StopEv) \<in> set (queue s)"
    by (auto simp: stop_pending_def)
  then have "\<not> before (SIM_TIME, URGENT, j, StopEv) (t, p, i, ev)" using assms(2) pop_min by blast
  then have "t \<le> SIM_TIME" by (auto simp: before_def)
  moreover have "set (queue s) = insert (t, p, i, ev) (set q)" using assms(2) by (rule pop_set)
  then have "ev \<noteq> StopEv \<longrightarrow> (SIM_TIME, URGENT, j, StopEv) \<in> set q" using j by auto
  ultimately show ?thesis by (auto simp: stop_pending_def)
qed

lemma length_remove_rid: "length (remove_rid i rs) \<le> length rs"
  by (induction rs) auto

lemma pool_trigger_put: "pool_ok (machine s) \<Longrightarrow> pool_ok (machine (trigger_put s))"
  by (simp add: pool_ok_def grantable_def)

lemma pool_request: "pool_ok (machine s) \<Longrightarrow> pool_ok (machine (request p k s))"
  by (simp add: request_alt pool_ok_def grantable_def)

lemma pool_release: "pool_ok (machine s) \<Longrightarrow> pool_ok (machine (release i s))"
  using length_remove_rid [of i "users (machine s)"] by (simp add: pool_ok_def)

lemma pool_fire:
  assumes "ev_ok ev" "pool_ok (machine s)"
  shows "post (\<lambda>s'. pool_ok (machine s')) (fire S ev s)"
  using assms
  by (cases rule: ev_ok.cases)
     (simp_all add: env_process_def pool_trigger_put pool_request pool_release)

lemma eids_pop:
  assumes "eids_ok s" "pop (queue s) = Some ((t, p, i, ev), q)"
  shows "eids_ok (s\<lparr>now := t, queue := q\<rparr>)"
proof -
  from assms(2) have m: "mset (queue s) = add_mset (t, p, i, ev) (mset q)" by (rule pop_mset)
  then have "mset (map eid_of (queue s)) = mset (i # map eid_of q)"
    by (metis eid_of.simps image_mset_add_mset mset.simps(2) mset_map)
  then have "distinct (i # map eid_of q)"
    using assms(1) mset_eq_imp_distinct_iff unfolding eids_ok_def by blast
  then have "distinct (map eid_of q)" by simp
  moreover have "set q \<subseteq> set (queue s)" using m by (metis set_mset_mset set_mset_add_mset_insert subset_insertI)
  ultimately show ?thesis using assms(1) by (auto simp: eids_ok_def)
qed

lemma eids_fire:
  assumes "ev_ok ev" "eids_ok s"
  shows "post eids_ok (fire S ev s)"
  using assms
  by (cases rule: ev_ok.cases)
     (auto simp: fire_defs eids_ok_def less_Suc_eq)

lemma qsum_upd [simp]:
  "qsum f (s\<lparr>rng := g\<rparr>) = qsum f s"
  "qsum f (s\<lparr>wait_times := wt\<rparr>) = qsum f s"
  "qsum f (s\<lparr>queue_lengths := ql\<rparr>) = qsum f s"
  "qsum f (s\<lparr>queue_time := qt\<rparr>) = qsum f s"
  "qsum f (s\<lparr>busy_time := b\<rparr>) = qsum f s"
  "qsum f (s\<lparr>processed_cars := pc\<rparr>) = qsum f s"
  by (simp_all add: qsum_def)

lemma tot_upd [simp]:
  "tot f (s\<lparr>rng := g\<rparr>) = tot f s"
  "tot f (s\<lparr>wait_times := wt\<rparr>) = tot f s"
  "tot f (s\<lparr>queue_lengths := ql\<rparr>) = tot f s"
  "tot f (s\<lparr>queue_time := qt\<rparr>) = tot f s"
  "tot f (s\<lparr>busy_time := b\<rparr>) = tot f s"
  "tot f (s\<lparr>processed_cars := pc\<rparr>) = tot f s"
  by (simp_all add: tot_def qsum_def)

lemma qsum_schedule [simp]: "qsum f (schedule ev p d s) = qsum f s + f ev"
  by (simp add: qsum_def)

lemma qsum_release [simp]: "qsum f (release i s) = qsum f s + f ReleaseEv"
  by (simp add: qsum_def)

lemma qsum_enqueued [simp]: "qsum f (enqueued p k s) = qsum f s"
  by (simp add: qsum_def)

lemma qsum_trigger_put:
  "qsum f (trigger_put s) = (if grantable s then qsum f s + f (RequestEv (granted s)) else qsum f s)"
  by (simp add: qsum_def)

lemma qsum_pop:
  assumes "pop (queue s) = Some ((t, p, i, ev), q)"
  shows "qsum f s = qsum f (s\<lparr>now := t, queue := q\<rparr>) + f ev"
  using pop_sum [OF assms, of "\<lambda>e. f (ev_of e)"] by (simp add: qsum_def add.commute)

lemma tot_schedule [simp]: "tot f (schedule ev p d s) = tot f s + f ev"
  by (simp add: tot_def ac_simps)

lemma tot_release [simp]: "tot f (release i s) = tot f s + f ReleaseEv"
  by (simp add: tot_def ac_simps)

lemma tot_enqueued [simp]: "tot f (enqueued p k s) = tot f s + f (RequestEv (new_request p k s))"
  by (simp add: tot_def add.assoc)

lemma tot_trigger_put [simp]: "usage_free f \<Longrightarrow> tot f (trigger_put s) = tot f s"
  by (cases "put_queue (machine s)")
     (simp_all add: tot_def qsum_def grantable_def granted_def usage_free_def
        ac_simps)

lemma tot_pop:
  assumes "pop (queue s) = Some ((t, p, i, ev), q)"
  shows "tot f s = tot f (s\<lparr>now := t, queue := q\<rparr>) + f ev"
  using qsum_pop [OF assms, of f] by (simp add: tot_def qsum_def ac_simps)

lemma set_remove_rid: "set (remove_rid i rs) \<subseteq> set rs"
  by (induction rs) auto

lemma distinct_remove_rid: "distinct (map rid rs) \<Longrightarrow> distinct (map rid (remove_rid i rs))"
  using set_remove_rid by (induction rs) fastforce+

lemma fresh_upd [simp]:
  "fresh (s\<lparr>rng := g\<rparr>) = fresh s"
  "fresh (s\<lparr>wait_times := wt\<rparr>) = fresh s"
  "fresh (s\<lparr>queue_lengths := ql\<rparr>) = fresh s"
  "fresh (s\<lparr>queue_time := qt\<rparr>) = fresh s"
  "fresh (s\<lparr>busy_time := b\<rparr>) = fresh s"
  "fresh (s\<lparr>processed_cars := pc\<rparr>) = fresh s"
  "fresh (s\<lparr>now := t, queue := q\<rparr>) = fresh s"
  "fresh (schedule ev p d s) = fresh s"
  by (simp_all add: fresh_def)

lemma fresh_trigger_put: "fresh s \<Longrightarrow> fresh (trigger_put s)"
  by (cases "put_queue (machine s)")
     (auto simp: fresh_def grantable_def granted_def)

lemma fresh_request: "fresh s \<Longrightarrow> fresh (request p k s)"
  unfolding request_alt
  by (rule fresh_trigger_put) (fastforce simp: fresh_def new_request_def less_Suc_eq)

lemma fresh_release: "fresh s \<Longrightarrow> fresh (release i s)"
  using set_remove_rid [of i "users (machine s)"] distinct_remove_rid [of "users (machine s)" i]
  by (auto simp: fresh_def)

lemma fresh_fire:
  assumes "ev_ok ev" "fresh s"
  shows "post fresh (fire S ev s)"
  using assms
  by (cases rule: ev_ok.cases)
     (simp_all add: env_process_def fresh_trigger_put fresh_request fresh_release)

lemma users_pairs_upd [simp]:
  "users_pairs (s\<lparr>rng := g\<rparr>) = users_pairs s"
  "users_pairs (s\<lparr>wait_times := wt\<rparr>) = users_pairs s"
  "users_pairs (s\<lparr>queue_lengths := ql\<rparr>) = users_pairs s"
  "users_pairs (s\<lparr>queue_time := qt\<rparr>) = users_pairs s"
  "users_pairs (s\<lparr>busy_time := b\<rparr>) = users_pairs s"
  "users_pairs (s\<lparr>processed_cars := pc\<rparr>) = users_pairs s"
  "users_pairs (s\<lparr>now := t, queue := q\<rparr>) = users_pairs s"
  "users_pairs (schedule ev p d s) = users_pairs s"
  "users_pairs (enqueued p' k s) = users_pairs s"
  by (simp_all add: users_pairs_def)

lemma users_pairs_trigger_put:
  "users_pairs (trigger_put s) =
     (if grantable s then users_pairs s + {#pair_of (hd (put_queue (machine s)))#} else users_pairs s)"
  by (simp add: users_pairs_def pair_of_def)

lemma remove_rid_pairs:
  "distinct (map rid rs) \<Longrightarrow> (i, p) \<in># mset (map pair_of rs) \<Longrightarrow>
   mset (map pair_of (remove_rid i rs)) = mset (map pair_of rs) - {#(i, p)#}"
proof (induction rs)
  case Nil
  then show ?case by simp
next
  case (Cons r rs)
  show ?case
  proof (cases "rid r = i")
    case True
    then have "i \<notin> rid ` set rs" using Cons.prems(1) by auto
    then have "(i, p) \<notin> pair_of ` set rs" by (auto simp: pair_of_def)
    then have "pair_of r = (i, p)" using Cons.prems(2) by auto
    then show ?thesis using True by simp
  next
    case False
    then have "(i, p) \<in># mset (map pair_of rs)" using Cons.prems(2) by (auto simp: pair_of_def)
    then show ?thesis using False Cons by (auto simp: pair_of_def)
  qed
qed

lemma users_pairs_release:
  "fresh s \<Longrightarrow> (i, p) \<in># users_pairs s \<Longrightarrow> users_pairs (release i s) = users_pairs s - {#(i, p)#}"
proof -
  assume f: "fresh s" and m: "(i, p) \<in># users_pairs s"
  from f have "distinct (map rid (users (machine s)))" by (simp add: fresh_def)
  moreover from m have "(i, p) \<in># mset (map pair_of (users (machine s)))"
    by (simp only: users_pairs_def)
  ultimately have "mset (map pair_of (remove_rid i (users (machine s)))) =
      mset (map pair_of (users (machine s))) - {#(i, p)#}" by (rule remove_rid_pairs)
  then show ?thesis by (simp only: users_pairs_def release_sel)
qed

lemma pair_of_granted [simp]: "pair_of (granted s) = pair_of (hd (put_queue (machine s)))"
  by (simp add: pair_of_def)

lemma held_fire:
  assumes "ev_ok ev" "fresh s" "users_pairs s = qsum held s + held ev"
  shows "post held_ok (fire S ev s)"
  using assms
proof (cases rule: ev_ok.cases)
  case (to_hold1 i)
  then show ?thesis using assms(2,3)
    by (simp add: request_alt held_ok_def qsum_trigger_put users_pairs_trigger_put
          users_pairs_release [where p = RepairPerson])
next
  case (to_hold2 i)
  then show ?thesis using assms(2,3)
    by (simp add: held_ok_def users_pairs_release [where p = RepairPerson])
next
  case (proc_wash n d i st)
  then show ?thesis using assms(2,3)
    by (simp add: held_ok_def users_pairs_release [where p = "Car n"])
qed (simp_all add: fire_defs held_ok_def qsum_trigger_put users_pairs_trigger_put pair_of_def)

lemma usage_free_rep [simp]: "usage_free rep_live"
  by (simp add: usage_free_def)

lemma rep_fire:
  assumes "ev_ok ev" "tot rep_live s + rep_live ev \<le> 1"
  shows "post (\<lambda>s'. tot rep_live s' \<le> 1) (fire S ev s)"
  using assms
  by (cases rule: ev_ok.cases) (simp_all add: fire_defs new_request_def)

lemma offline_pairs: "offline s = size (filter_mset (\<lambda>x. snd x = RepairPerson) (users_pairs s))"
proof -
  have "length (filter (\<lambda>r. proc r = RepairPerson) rs) =
        size (filter_mset (\<lambda>x. snd x = RepairPerson) (mset (map pair_of rs)))" for rs
    by (induction rs) (simp_all add: pair_of_def)
  then show ?thesis by (simp add: offline_def users_pairs_def)
qed

lemma size_filter_sum_list:
  "size (filter_mset P (\<Sum>e\<leftarrow>q. h e)) = (\<Sum>e\<leftarrow>q. size (filter_mset P (h e)))"
  by (induction q) simp_all

lemma held_rep_le:
  assumes "ev_ok ev"
  shows "size (filter_mset (\<lambda>x. snd x = RepairPerson) (held ev)) \<le> rep_live ev"
  using assms by (cases rule: ev_ok.cases) (simp_all add: pair_of_def)

lemma offline_le:
  assumes "shape s" "held_ok s" "tot rep_live s \<le> 1"
  shows "offline s \<le> 1"
proof -
  have "offline s = (\<Sum>e\<leftarrow>queue s. size (filter_mset (\<lambda>x. snd x = RepairPerson) (held (ev_of e))))"
    using assms(2) by (simp add: offline_pairs held_ok_def qsum_def size_filter_sum_list)
  also have "\<dots> \<le> (\<Sum>e\<leftarrow>queue s. rep_live (ev_of e))"
    using assms(1) by (intro sum_list_mono held_rep_le) (simp add: shape_def)
  also have "\<dots> \<le> tot rep_live s" by (simp add: tot_def qsum_def)
  finally show ?thesis using assms(3) by simp
qed

lemma usage_free_car [simp]: "usage_free car_live"
  by (simp add: usage_free_def)

lemma cars_fire:
  assumes "ev_ok ev" "processed_cars s + tot car_live s + car_live ev = qsum setup_count s + setup_count ev"
    "qsum setup_live s + setup_live ev = 1"
  shows "post cars_ok (fire S ev s)"
  using assms
  by (cases rule: ev_ok.cases)
     (simp_all add: fire_defs new_request_def cars_ok_def car_count_def qsum_trigger_put)

lemma entries_fire:
  assumes "ev_ok ev" "entries_ok s" "entry_ok (now s, p, i, ev)"
  shows "post entries_ok (fire S ev s)"
  using assms
  by (cases rule: ev_ok.cases) (simp_all add: fire_defs entries_ok_def)

lemma wash_fire:
  assumes "ev_ok ev" "0 \<le> now s" "0 \<le> busy_time s"
    "busy_time s + real (qsum nwash s + nwash ev) * now s - (qsum wst s + wst ev)
       \<le> real (capacity (machine s)) * now s"
    "\<forall>e \<in> set (queue s). wst (ev_of e) \<le> now s" "wst ev \<le> now s"
  shows "post wash_ok (fire S ev s)"
  using assms
  by (cases rule: ev_ok.cases)
     (simp_all add: fire_defs wash_ok_def qsum_trigger_put algebra_simps)

lemma size_sum_list: "size (\<Sum>e\<leftarrow>q. (h e :: 'a multiset)) = (\<Sum>e\<leftarrow>q. size (h e))"
  by (induction q) simp_all

lemma nwash_w_le: "nwash_w w \<le> size (case w of None \<Rightarrow> {#} | Some k \<Rightarrow> holds k)"
  by (cases w rule: nwash_w.cases) simp_all

lemma nwash_le_held: "nwash ev \<le> size (held ev)"
proof (cases ev)
  case (Initialize p)
  then show ?thesis using nwash_w_le [of "snd p"] by (cases p) simp
next
  case (TimeoutEv p)
  then show ?thesis using nwash_w_le [of "snd p"] by (cases p) simp
next
  case (ProcessEv p)
  then show ?thesis using nwash_w_le [of "snd p"] by simp
qed simp_all

lemma nwash_le_users:
  assumes "held_ok s"
  shows "qsum nwash s \<le> length (users (machine s))"
proof -
  have "qsum nwash s \<le> (\<Sum>e\<leftarrow>queue s. size (held (ev_of e)))"
    unfolding qsum_def by (intro sum_list_mono nwash_le_held)
  also have "\<dots> = size (qsum held s)" by (simp add: qsum_def size_sum_list)
  also have "\<dots> = size (users_pairs s)" using assms by (simp add: held_ok_def)
  also have "\<dots> = length (users (machine s))" by (simp add: users_pairs_def)
  finally show ?thesis .
qed

lemma wash_pop:
  assumes "wash_ok s" "timed s" "pool_ok (machine s)" "held_ok s"
    and pop: "pop (queue s) = Some ((t, p, i, ev), q)"
  shows "busy_time s + real (qsum nwash (s\<lparr>now := t, queue := q\<rparr>) + nwash ev) * t
           - (qsum wst (s\<lparr>now := t, queue := q\<rparr>) + wst ev) \<le> real (capacity (machine s)) * t"
    and "\<forall>e \<in> set q. wst (ev_of e) \<le> t" and "wst ev \<le> t"
proof -
  have t: "now s \<le> t" using timed_pop [OF assms(2) pop] by simp
  have n: "qsum nwash s = qsum nwash (s\<lparr>now := t, queue := q\<rparr>) + nwash ev"
    using pop by (rule qsum_pop)
  have w: "qsum wst s = qsum wst (s\<lparr>now := t, queue := q\<rparr>) + wst ev"
    using pop by (rule qsum_pop)
  have "qsum nwash s \<le> capacity (machine s)"
    using nwash_le_users [OF assms(4)] assms(3) by (simp add: pool_ok_def)
  then have "real (qsum nwash s) \<le> real (capacity (machine s))" by simp
  then have "real (qsum nwash s) * (t - now s) \<le> real (capacity (machine s)) * (t - now s)"
    using t by (intro mult_right_mono) simp_all
  moreover have "busy_time s + real (qsum nwash s) * now s - qsum wst s
      \<le> real (capacity (machine s)) * now s" using assms(1) by (simp add: wash_ok_def)
  ultimately have "busy_time s + real (qsum nwash s) * t - qsum wst s
      \<le> real (capacity (machine s)) * t" by (simp add: algebra_simps)
  then show "busy_time s + real (qsum nwash (s\<lparr>now := t, queue := q\<rparr>) + nwash ev) * t
           - (qsum wst (s\<lparr>now := t, queue := q\<rparr>) + wst ev) \<le> real (capacity (machine s)) * t"
    by (simp only: n w)
  have set: "set (queue s) = insert (t, p, i, ev) (set q)" using pop by (rule pop_set)
  have all: "\<forall>e \<in> set (queue s). wst (ev_of e) \<le> t"
    using assms(1) t by (fastforce simp: wash_ok_def)
  show "\<forall>e \<in> set q. wst (ev_of e) \<le> t" using all set by simp
  show "wst ev \<le> t" using all set by simp
qed

lemma now_fire:
  assumes "ev_ok ev"
  shows "post (\<lambda>s'. now s' = now s) (fire S ev s)"
  using assms by (cases rule: ev_ok.cases) (simp_all add: fire_defs)

lemma inv_fire:
  assumes "run_inv s" "stop_pending s" and pop: "pop (queue s) = Some ((t, p, i, ev), q)"
  shows "post run_inv (fire S ev (s\<lparr>now := t, queue := q\<rparr>))"
proof -
  let ?s = "s\<lparr>now := t, queue := q\<rparr>"
  have ok: "ev_ok ev" and sh: "shape ?s" using shape_pop [OF _ pop] assms(1) by (simp_all add: run_inv_def)
  have ti: "timed ?s" using timed_pop [OF _ pop] assms(1) by (simp add: run_inv_def)
  have set: "set (queue s) = insert (t, p, i, ev) (set q)" using pop by (rule pop_set)
  have 1: "post shape (fire S ev ?s)" using ok sh by (rule shape_fire)
  have 2: "post (\<lambda>s'. timed s' \<and> now s' = now ?s) (fire S ev ?s)" using ok ti by (rule timed_fire)
  have 3: "post (\<lambda>s'. pool_ok (machine s')) (fire S ev ?s)"
    using assms(1) by (intro pool_fire ok) (simp add: run_inv_def)
  have 4: "post eids_ok (fire S ev ?s)"
    using assms(1) by (intro eids_fire ok eids_pop [OF _ pop]) (simp add: run_inv_def)
  have 5: "post fresh (fire S ev ?s)"
    using assms(1) by (intro fresh_fire ok) (simp add: run_inv_def)
  have 6: "post held_ok (fire S ev ?s)"
    using assms(1) qsum_pop [OF pop, of held]
    by (intro held_fire ok) (simp_all add: run_inv_def held_ok_def)
  have 7: "post (\<lambda>s'. tot rep_live s' \<le> 1) (fire S ev ?s)"
    using assms(1) tot_pop [OF pop, of rep_live] by (intro rep_fire ok) (simp add: run_inv_def)
  have 8: "post cars_ok (fire S ev ?s)"
    using assms(1) tot_pop [OF pop, of car_live] qsum_pop [OF pop, of setup_count]
      qsum_pop [OF pop, of setup_live]
    by (intro cars_fire ok) (simp_all add: run_inv_def cars_ok_def car_count_def)
  have 9: "post entries_ok (fire S ev ?s)"
    using assms(1) set by (intro entries_fire [where p = p and i = i] ok) (simp_all add: run_inv_def entries_ok_def)
  have 10: "post wash_ok (fire S ev ?s)"
  proof (rule wash_fire [OF ok])
    have w: "wash_ok s" "timed s" "pool_ok (machine s)" "held_ok s" using assms(1) by (simp_all add: run_inv_def)
    show "0 \<le> now ?s" using ti by (simp add: timed_def)
    show "0 \<le> busy_time ?s" using w(1) by (simp add: wash_ok_def)
    show "busy_time ?s + real (qsum nwash ?s + nwash ev) * now ?s - (qsum wst ?s + wst ev)
       \<le> real (capacity (machine ?s)) * now ?s"
      using wash_pop(1) [OF w pop] by simp
    show "\<forall>e \<in> set (queue ?s). wst (ev_of e) \<le> now ?s" using wash_pop(2) [OF w pop] by simp
    show "wst ev \<le> now ?s" using wash_pop(3) [OF w pop] by simp
  qed
  have "t \<le> SIM_TIME" using stop_pop [OF assms(2) pop] by simp
  then have 11: "post (\<lambda>s'. now s' \<le> SIM_TIME) (fire S ev ?s)"
    using 2 by (auto elim: post_mono)
  show ?thesis
    unfolding run_inv_def post_conj using 1 2 3 4 5 6 7 8 9 10 11 by (simp add: post_conj)
qed

lemma inv_step:
  assumes "run_inv s" "stop_pending s"
  shows "post run_inv (step S s)" and "post_c stop_pending (step S s)"
proof -
  show "post run_inv (step S s)" using assms by (intro step_post inv_fire)
  show "post_c stop_pending (step S s)"
  proof (rule step_post_c)
    fix t p i ev q assume pop: "pop (queue s) = Some ((t, p, i, ev), q)"
    have ok: "ev_ok ev" using shape_pop [OF _ pop] assms(1) by (simp add: run_inv_def)
    show "post_c stop_pending (fire S ev (s\<lparr>now := t, queue := q\<rparr>))"
    proof (cases "ev = StopEv")
      case True
      then show ?thesis by simp
    next
      case False
      then show ?thesis using stop_pop [OF assms(2) pop] ok by (intro stop_fire) simp_all
    qed
  qed
qed

lemma inv_init: "run_inv (init g)" "stop_pending (init g)"
  by (simp_all add: run_inv_def init_def env_process_def environment_def shape_def ev_ok.simps
        timed_def pool_ok_def eids_ok_def fresh_def held_ok_def users_pairs_def qsum_def tot_def
        cars_ok_def car_count_def entries_ok_def wash_ok_def stop_pending_def SIM_TIME_def
        NUM_MACHINES_def)

lemma inv_exec: "post run_inv (exec S n (init g)) \<and> post_c stop_pending (exec S n (init g))"
proof (induction n)
  case 0
  then show ?case using inv_init [of g] by simp
next
  case (Suc n)
  show ?case
  proof (cases "exec S n (init g)")
    case (Continue s)
    then show ?thesis using Suc inv_step [of s S] by simp
  next
    case (Stopped s)
    then show ?thesis using Suc by simp
  next
    case (Failed e)
    then show ?thesis by simp
  qed
qed

section \<open>Properties of the simulation\<close>

lemma reach_inv: "state_of (exec S n (init g)) = Some s \<Longrightarrow> run_inv s"
  using inv_exec [of S n g] by (simp add: post_state_of)

lemma reach_stop: "exec S n (init g) = Continue s \<Longrightarrow> stop_pending s"
  using inv_exec [of S n g] by simp

lemma resume_succeeds:
  assumes "sampler_ok S"
  shows "\<exists>s'. resume S p s = Inr s'"
proof -
  have e: "0 \<le> fst (expovariate S rate g)" if "0 < rate" for rate g
    using assms that by (simp add: sampler_ok_def)
  have r: "0 \<le> fst (randint S REPAIR_INTERVAL_MIN REPAIR_INTERVAL_MAX g)" for g
  proof -
    have "REPAIR_INTERVAL_MIN \<le> fst (randint S REPAIR_INTERVAL_MIN REPAIR_INTERVAL_MAX g)"
      using assms by (simp add: sampler_ok_def REPAIR_INTERVAL_MIN_def REPAIR_INTERVAL_MAX_def)
    then show ?thesis by (simp add: REPAIR_INTERVAL_MIN_def)
  qed
  have el: "0 \<le> fst (expovariate S LAMBDA g)" for g using e [of LAMBDA g] by (simp add: LAMBDA_def)
  have em: "0 \<le> fst (expovariate S MU g)" for g using e [of MU g] by (simp add: MU_def)
  show ?thesis
  proof (cases "(S, p, s)" rule: resume.cases)
    case (1 S' w s')
    then show ?thesis using el [of "rng s"]
      by (auto simp: setup_loop_def timeout_def split: prod.splits)
  next
    case (2 S' c w s')
    then show ?thesis using el [of "rng s"]
      by (auto simp: setup_loop_def timeout_def env_process_def split: prod.splits)
  next
    case (4 S' w s')
    then show ?thesis using r [of "rng s"]
      by (auto simp: repair_loop_def timeout_def split: prod.splits)
  next
    case (9 S' i w s')
    then show ?thesis using r [of "rng s"]
      by (auto simp: repair_loop_def timeout_def split: prod.splits)
  next
    case (13 S' n w s')
    then show ?thesis using em [of "rng s"]
      by (auto simp: resume.simps(13) timeout_def split: prod.splits)
  qed (auto simp: timeout_def REPAIR_DURATION_def)
qed

lemma fire_not_failed:
  assumes "sampler_ok S"
  shows "fire S ev s \<noteq> Failed e"
proof (cases ev)
  case (Initialize p)
  then show ?thesis using resume_succeeds [OF assms, of p s] by (auto simp: lift_def)
next
  case (TimeoutEv p)
  then show ?thesis using resume_succeeds [OF assms, of p s] by (auto simp: lift_def)
next
  case (RequestEv r)
  then show ?thesis using resume_succeeds [OF assms, of "waiter r" s] by (auto simp: lift_def)
next
  case (ProcessEv p)
  show ?thesis
  proof (cases "snd p")
    case None
    then show ?thesis using ProcessEv by simp
  next
    case (Some k)
    then show ?thesis using ProcessEv resume_succeeds [OF assms, of "(k, None)" s]
      by (auto simp: lift_def)
  qed
qed simp_all

lemma wst_le_nwash:
  assumes "wst ev \<le> c" "0 \<le> c"
  shows "wst ev \<le> real (nwash ev) * c"
proof (cases ev)
  case (Initialize p)
  then show ?thesis using assms by (cases "snd p" rule: nwash_w.cases) auto
next
  case (TimeoutEv p)
  then show ?thesis using assms by (cases "snd p" rule: nwash_w.cases) auto
next
  case (ProcessEv p)
  then show ?thesis using assms by (cases "snd p" rule: nwash_w.cases) auto
qed (use assms in simp_all)

lemma wst_sum_le:
  "(\<forall>e \<in> set q. wst (ev_of e) \<le> c) \<Longrightarrow> 0 \<le> c \<Longrightarrow>
     (\<Sum>e\<leftarrow>q. wst (ev_of e)) \<le> real (\<Sum>e\<leftarrow>q. nwash (ev_of e)) * c"
proof (induction q)
  case Nil
  then show ?case by simp
next
  case (Cons e q)
  then have "wst (ev_of e) \<le> real (nwash (ev_of e)) * c" by (intro wst_le_nwash) simp_all
  moreover have "(\<Sum>e\<leftarrow>q. wst (ev_of e)) \<le> real (\<Sum>e\<leftarrow>q. nwash (ev_of e)) * c"
    using Cons by simp
  ultimately show ?case by (simp add: algebra_simps)
qed

lemma busy_le: 
  assumes "run_inv s"
  shows "0 \<le> busy_time s" "busy_time s \<le> SIM_TIME * real NUM_MACHINES"
proof -
  have w: "wash_ok s" and t: "timed s" and p: "pool_ok (machine s)" and b: "now s \<le> SIM_TIME"
    using assms by (simp_all add: run_inv_def)
  show "0 \<le> busy_time s" using w by (simp add: wash_ok_def)
  have n: "0 \<le> now s" using t by (simp add: timed_def)
  have "qsum wst s \<le> real (qsum nwash s) * now s"
    unfolding qsum_def using w n by (intro wst_sum_le) (simp_all add: wash_ok_def)
  moreover have "busy_time s + real (qsum nwash s) * now s - qsum wst s
      \<le> real (capacity (machine s)) * now s" using w by (simp add: wash_ok_def)
  ultimately have "busy_time s \<le> real (capacity (machine s)) * now s" by simp
  also have "\<dots> = real NUM_MACHINES * now s" using p by (simp add: pool_ok_def)
  also have "\<dots> \<le> real NUM_MACHINES * SIM_TIME" using b by (intro mult_left_mono) simp_all
  finally show "busy_time s \<le> SIM_TIME * real NUM_MACHINES" by (simp add: mult.commute)
qed

lemma length_remove_rid_mem:
  "u \<in> set rs \<Longrightarrow> length (remove_rid (rid u) rs) < length rs"
  by (induction rs) auto

lemma request_saturated:
  assumes "capacity (machine s) \<le> length (users (machine s))"
  shows "users (machine (request p k s)) = users (machine s)"
    and "put_queue (machine (request p k s)) = put_queue (machine s) @ [new_request p k s]"
    and "now (request p k s) = now s" and "capacity (machine (request p k s)) = capacity (machine s)"
    and "next_rid (request p k s) = Suc (next_rid s)"
  using assms by (simp_all add: request_alt grantable_def)

lemma grant_after_release:
  assumes "length (users (machine s)) \<le> capacity (machine s)" "u \<in> set (users (machine s))"
    "put_queue (machine s) \<noteq> []"
  shows "fire S ReleaseEv (release (rid u) s) = Continue (trigger_put (release (rid u) s))"
    and "users (machine (trigger_put (release (rid u) s))) =
           remove_rid (rid u) (users (machine s)) @ [(hd (put_queue (machine s)))\<lparr>usage_since := Some (now s)\<rparr>]"
    and "put_queue (machine (trigger_put (release (rid u) s))) = tl (put_queue (machine s))"
  using assms length_remove_rid_mem [OF assms(2)]
  by (simp_all add: grantable_def granted_def)

lemma sim_refl: "sim s s"
  by (simp add: sim_def)

lemma sim_fields:
  assumes "sim s s'"
  shows "wait_times s' = wait_times s" "queue_lengths s' = queue_lengths s"
    "queue_time s' = queue_time s" "processed_cars s' = processed_cars s"
    "busy_time s' = busy_time s"
proof -
  have eq: "s' = s\<lparr>queue := queue s'\<rparr>" using assms by (simp add: sim_def)
  show "wait_times s' = wait_times s" by (subst eq) simp
  show "queue_lengths s' = queue_lengths s" by (subst eq) simp
  show "queue_time s' = queue_time s" by (subst eq) simp
  show "processed_cars s' = processed_cars s" by (subst eq) simp
  show "busy_time s' = busy_time s" by (subst eq) simp
qed

lemma osim_samples: "osim r r' \<Longrightarrow> samples r = samples r'"
  by (induction r r' rule: osim.induct) (simp_all add: samples_def state_of_def sim_fields)

lemma fire_sim:
  assumes "ev_ok ev" "mset q' = mset (queue s)"
  shows "osim (fire S ev s) (fire S ev (s\<lparr>queue := q'\<rparr>))"
  using assms
  by (cases rule: ev_ok.cases)
     (simp_all add: lift_def timeout_def setup_loop_def repair_loop_def env_process_def
        request_def trigger_put_def release_def schedule_def Let_def sim_def resume.simps(13)
        split: prod.splits list.splits)

lemma tie_same_eid: "\<not> before a b \<Longrightarrow> \<not> before b a \<Longrightarrow> eid_of a = eid_of b"
  by (cases a; cases b) (auto simp: before_def)

lemma earliest_unique:
  assumes "distinct (map eid_of q)" "earliest q a" "earliest q b"
  shows "a = b"
proof -
  have "eid_of a = eid_of b" using assms(2,3) by (intro tie_same_eid) (simp_all add: earliest_def)
  moreover have "a \<in> set q" "b \<in> set q" using assms(2,3) by (simp_all add: earliest_def)
  ultimately show ?thesis using assms(1) by (meson distinct_map inj_onD)
qed

lemma pop_earliest: "pop q = Some (m, r) \<Longrightarrow> earliest q m"
  using pop_set [of q m r] pop_min [of q m r] by (auto simp: earliest_def)

lemma earliest_mset: "mset q' = mset q \<Longrightarrow> earliest q e \<Longrightarrow> earliest q' e"
  by (metis earliest_def mset_eq_setD)

lemma exec_is_run: "run S s0 n (exec S n s0)"
proof (induction n)
  case 0
  show ?case by (simp add: run_start)
next
  case (Suc n)
  show ?case
  proof (cases "exec S n s0")
    case (Continue s)
    show ?thesis
    proof (cases "pop (queue s)")
      case None
      then have "queue s = []" by (simp add: pop_None)
      then show ?thesis using Suc Continue None by (simp add: step_def run_empty)
    next
      case (Some a)
      obtain t p i ev q where a: "a = ((t, p, i, ev), q)" by (cases a) auto
      have "earliest (queue s) (t, p, i, ev)" using Some a pop_earliest by blast
      moreover have "mset (queue s) = add_mset (t, p, i, ev) (mset q)" using Some a pop_mset by blast
      ultimately have "run S s0 (Suc n)
          (fire S (ev_of (t, p, i, ev)) (s\<lparr>now := time_of (t, p, i, ev), queue := q\<rparr>))"
        using Suc Continue by (intro run_step) simp_all
      then show ?thesis using Continue Some a by (simp add: step_def)
    qed
  next
    case (Stopped s)
    then show ?thesis using Suc by (simp add: run_stopped)
  next
    case (Failed e)
    then show ?thesis using Suc by (simp add: run_failed)
  qed
qed

lemma run_sim: "run S (init g) n r \<Longrightarrow> osim (exec S n (init g)) r"
proof (induction rule: run.induct)
  case run_start
  show ?case by (simp add: sim_refl)
next
  case (run_step n s e q)
  from run_step.IH obtain s0 where x: "exec S n (init g) = Continue s0" and sm: "sim s0 s"
    by (cases "exec S n (init g)") simp_all
  have i: "run_inv s0" using x by (intro reach_inv [of S n g]) (simp add: state_of_def)
  have ms: "mset (queue s) = mset (queue s0)" and eq: "s = s0\<lparr>queue := queue s\<rparr>"
    using sm by (simp_all add: sim_def)
  have e0: "earliest (queue s0) e" using run_step.hyps(2) ms earliest_mset by metis
  then have "queue s0 \<noteq> []" by (auto simp: earliest_def)
  then obtain m r where pop: "pop (queue s0) = Some (m, r)"
    by (cases "pop (queue s0)") (auto simp: pop_None)
  have "e = m"
    using i e0 pop_earliest [OF pop] by (intro earliest_unique [of "queue s0"]) (simp_all add: run_inv_def eids_ok_def)
  obtain t p j ev where m: "m = (t, p, j, ev)" by (cases m) auto
  have ok: "ev_ok ev" using shape_pop [of s0 t p j ev r] pop m i by (simp add: run_inv_def)
  have "add_mset e (mset q) = add_mset m (mset r)"
    using run_step.hyps(3) ms pop_mset [OF pop] by simp
  then have qr: "mset q = mset r" using \<open>e = m\<close> by simp
  have st: "exec S (Suc n) (init g) = fire S ev (s0\<lparr>now := t, queue := r\<rparr>)"
    using x pop m by (simp add: step_def)
  have "s\<lparr>now := time_of e, queue := q\<rparr> = (s0\<lparr>now := t, queue := r\<rparr>)\<lparr>queue := q\<rparr>"
    using \<open>e = m\<close> m by (subst eq) simp
  moreover have "osim (fire S ev (s0\<lparr>now := t, queue := r\<rparr>))
      (fire S ev ((s0\<lparr>now := t, queue := r\<rparr>)\<lparr>queue := q\<rparr>))"
    using ok qr by (intro fire_sim) simp_all
  ultimately show ?case using st \<open>e = m\<close> m by simp
next
  case (run_empty n s)
  from run_empty.IH obtain s0 where x: "exec S n (init g) = Continue s0" and sm: "sim s0 s"
    by (cases "exec S n (init g)") simp_all
  have "mset (queue s0) = mset (queue s)" using sm by (simp add: sim_def)
  then have "queue s0 = []" using run_empty.hyps(2) by simp
  then show ?case using x by (simp add: step_def pop_def)
next
  case (run_stopped n s)
  then show ?case by (cases "exec S n (init g)") simp_all
next
  case (run_failed n e)
  then show ?case by (cases "exec S n (init g)") simp_all
qed

text \<open>
  C1. In every state of every run the machine pool satisfies
  \<open>0 \<le> in_use \<le> capacity = NUM_MACHINES\<close>, where \<open>in_use\<close> is the number of granted
  requests (\<open>users\<close>), and a request, a release and a grant each preserve this.
\<close>

theorem pool_capacity_invariant:
  "(state_of (exec S n (init g)) = Some s \<longrightarrow> pool_ok (machine s)) \<and>
   (pool_ok (machine s') \<longrightarrow>
      pool_ok (machine (request p k s')) \<and> pool_ok (machine (release i s')) \<and>
      pool_ok (machine (trigger_put s')))"
  using reach_inv [of S n g s] pool_request [of s' p k] pool_release [of s' i] pool_trigger_put [of s']
  by (auto simp: run_inv_def)

theorem pool_capacity_invariant_witness:
  "\<exists>s. state_of (exec demo 45 (init ())) = Some s \<and> pool_ok (machine s) \<and>
       length (users (machine s)) = 2 \<and>
       pool_ok (machine (request (Car 9) (\<lambda>req. (Car_request 9 (now s) req, None)) s)) \<and>
       pool_ok (machine (release 0 s)) \<and> pool_ok (machine (trigger_put s))"
proof -
  have "case state_of (exec demo 45 (init ())) of None \<Rightarrow> False
        | Some s \<Rightarrow> length (users (machine s)) = 2"
    by code_simp
  then obtain s where s: "state_of (exec demo 45 (init ())) = Some s"
    "length (users (machine s)) = 2" by (auto split: option.splits)
  then show ?thesis
    using pool_capacity_invariant [of demo 45 "()" s s "Car 9" "\<lambda>req. (Car_request 9 (now s) req, None)" 0]
    by auto
qed

text \<open>
  C2. The claim that the repair person's request bypasses the wait queue of the cars fails
  on the run of \<open>demo\<close>: after 54 steps (minute 40) both machines wash and the repair
  request waits in the pool's queue behind car 3; after 59 steps car 1 has left its
  machine; after 60 steps the freed machine washes car 3 and the repair still waits.
\<close>

theorem repair_waits_behind_queued_cars:
  "using_procs (exec demo 54 (init ())) = [Car 1, Car 2] \<and>
   waiting_procs (exec demo 54 (init ())) = [Car 3, RepairPerson] \<and>
   using_procs (exec demo 59 (init ())) = [Car 2] \<and>
   waiting_procs (exec demo 59 (init ())) = [Car 3, RepairPerson] \<and>
   using_procs (exec demo 60 (init ())) = [Car 2, Car 3] \<and>
   waiting_procs (exec demo 60 (init ())) = [RepairPerson]"
  by code_simp

text \<open>
  C2, as the code has it. The repair routine acquires a machine with an ordinary request
  on the machine pool: with both slots in use the request is not granted and joins the
  tail of the same FIFO wait queue as the requests of the cars; when a slot is released
  it goes to the head of that queue, so the repair waits behind every request queued
  before it.
\<close>

theorem repair_request_joins_queue:
  assumes "length (users (machine s)) = capacity (machine s)" "u \<in> set (users (machine s))"
  shows "let R = new_request RepairPerson (\<lambda>req1. (Repair_req1 req1, w)) s;
             s1 = request RepairPerson (\<lambda>req1. (Repair_req1 req1, w)) s;
             s2 = trigger_put (release (rid u) s1);
             waiting = put_queue (machine s) @ [R]
         in resume S (Repair_interval, w) s = Inr s1 \<and> proc R = RepairPerson \<and>
            users (machine s1) = users (machine s) \<and>
            put_queue (machine s1) = waiting \<and>
            fire S ReleaseEv (release (rid u) s1) = Continue s2 \<and>
            users (machine s2) =
              remove_rid (rid u) (users (machine s)) @ [(hd waiting)\<lparr>usage_since := Some (now s)\<rparr>] \<and>
            put_queue (machine s2) = tl waiting \<and>
            (put_queue (machine s) \<noteq> [] \<longrightarrow>
               hd waiting = hd (put_queue (machine s)) \<and> R \<in> set (put_queue (machine s2)))"
proof -
  let ?k = "\<lambda>req1. (Repair_req1 req1, w)"
  let ?s1 = "request RepairPerson ?k s"
  have c: "capacity (machine s) \<le> length (users (machine s))" using assms(1) by simp
  note r1 = request_saturated [OF c, of RepairPerson ?k]
  have g: "length (users (machine ?s1)) \<le> capacity (machine ?s1)" "u \<in> set (users (machine ?s1))"
    "put_queue (machine ?s1) \<noteq> []"
    using assms r1 by simp_all
  note g3 = grant_after_release [OF g]
  show ?thesis using r1 g3 by (auto simp: Let_def new_request_def)
qed

theorem repair_request_joins_queue_witness:
  "\<exists>s u. state_of (exec demo 52 (init ())) = Some s \<and>
      length (users (machine s)) = capacity (machine s) \<and> u \<in> set (users (machine s)) \<and>
      map proc (put_queue (machine s)) = [Car 3] \<and>
      (let s1 = request RepairPerson (\<lambda>req1. (Repair_req1 req1, None)) s;
           s2 = trigger_put (release (rid u) s1)
       in resume demo (Repair_interval, None) s = Inr s1 \<and>
          map proc (put_queue (machine s1)) = [Car 3, RepairPerson] \<and>
          map proc (put_queue (machine s2)) = [RepairPerson])"
proof -
  have "case state_of (exec demo 52 (init ())) of None \<Rightarrow> False
        | Some s \<Rightarrow> length (users (machine s)) = capacity (machine s) \<and>
            users (machine s) \<noteq> [] \<and> map proc (put_queue (machine s)) = [Car 3]"
    by code_simp
  then obtain s where s: "state_of (exec demo 52 (init ())) = Some s"
    "length (users (machine s)) = capacity (machine s)" "users (machine s) \<noteq> []"
    "map proc (put_queue (machine s)) = [Car 3]"
    by (auto split: option.splits)
  have u: "hd (users (machine s)) \<in> set (users (machine s))" using s(3) by simp
  have ne: "put_queue (machine s) \<noteq> []" using s(4) by auto
  let ?k = "\<lambda>req1. (Repair_req1 req1, None)"
  note w = repair_request_joins_queue [OF s(2) u, of None demo, unfolded Let_def]
  from w ne have 1: "resume demo (Repair_interval, None) s = Inr (request RepairPerson ?k s)"
    and 2: "put_queue (machine (request RepairPerson ?k s)) =
              put_queue (machine s) @ [new_request RepairPerson ?k s]"
    and 3: "put_queue (machine (trigger_put (release (rid (hd (users (machine s))))
              (request RepairPerson ?k s)))) = tl (put_queue (machine s) @ [new_request RepairPerson ?k s])"
    by blast+
  have 4: "map proc (put_queue (machine (request RepairPerson ?k s))) = [Car 3, RepairPerson]"
    unfolding 2 using s(4) by (simp add: new_request_def)
  have 5: "map proc (put_queue (machine (trigger_put (release (rid (hd (users (machine s))))
              (request RepairPerson ?k s))))) = [RepairPerson]"
    unfolding 3 using s(4) ne by (cases "put_queue (machine s)") (simp_all add: new_request_def)
  show ?thesis unfolding Let_def
    by (intro exI [of _ s] exI [of _ "hd (users (machine s))"] conjI s(1) s(2) u s(4) 1 4 5)
qed

text \<open>
  C3. In every state of every run the repair person holds at most one machine, so at
  least one of the \<open>NUM_MACHINES\<close> machines is never offline: the routine holds the
  first machine for half the repair duration (15 minutes) and releases it before it
  requests the second.
\<close>

theorem repair_one_machine_at_a_time:
  "(state_of (exec S n (init g)) = Some s \<longrightarrow>
      offline s \<le> 1 \<and> 1 \<le> capacity (machine s) - offline s \<and>
      capacity (machine s) = NUM_MACHINES) \<and>
   resume S (Repair_req1 req1, w) s' =
     Inr (schedule (TimeoutEv (Repair_hold1 req1, w)) NORMAL 15 s') \<and>
   resume S (Repair_hold1 req1, w) s' =
     Inr (request RepairPerson (\<lambda>req2. (Repair_req2 req2, w)) (release req1 s'))"
proof -
  have "offline s \<le> 1 \<and> 1 \<le> capacity (machine s) - offline s \<and>
      capacity (machine s) = NUM_MACHINES" if "state_of (exec S n (init g)) = Some s"
  proof -
    have i: "run_inv s" using that by (rule reach_inv)
    then have "offline s \<le> 1" by (intro offline_le) (simp_all add: run_inv_def)
    moreover have "capacity (machine s) = 2"
      using i by (simp add: run_inv_def pool_ok_def NUM_MACHINES_def)
    ultimately show ?thesis by (simp add: NUM_MACHINES_def)
  qed
  then have a: "state_of (exec S n (init g)) = Some s \<longrightarrow>
      offline s \<le> 1 \<and> 1 \<le> capacity (machine s) - offline s \<and>
      capacity (machine s) = NUM_MACHINES" by blast
  have b: "resume S (Repair_req1 req1, w) s' =
     Inr (schedule (TimeoutEv (Repair_hold1 req1, w)) NORMAL 15 s')"
    by (simp add: timeout_def REPAIR_DURATION_def)
  have c: "resume S (Repair_hold1 req1, w) s' =
     Inr (request RepairPerson (\<lambda>req2. (Repair_req2 req2, w)) (release req1 s'))"
    by simp
  show ?thesis using a b c by blast
qed

theorem repair_one_machine_at_a_time_witness:
  "\<exists>s. state_of (exec demo 82 (init ())) = Some s \<and> offline s = 1 \<and>
       1 \<le> capacity (machine s) - offline s"
proof -
  have "case state_of (exec demo 82 (init ())) of None \<Rightarrow> False | Some s \<Rightarrow> offline s = 1"
    by code_simp
  then obtain s where s: "state_of (exec demo 82 (init ())) = Some s" "offline s = 1"
    by (auto split: option.splits)
  have "1 \<le> capacity (machine s) - offline s"
    using repair_one_machine_at_a_time [of demo 82 "()" s] s(1) by blast
  then show ?thesis using s by blast
qed

text \<open>
  C4. The wait queue of the pool is FIFO. With every slot in use, a request \<open>R1\<close> and
  then a request \<open>R2\<close> are not granted but join the tail of the wait queue; when a holder
  \<open>u\<close> releases its slot and the release event fires, the head of the wait queue is
  granted and the others keep their order. In particular, with nobody waiting before, \<open>R1\<close>
  is granted and \<open>R2\<close> still waits.
\<close>

theorem wait_queue_fifo:
  assumes "length (users (machine s)) = capacity (machine s)" "u \<in> set (users (machine s))"
  shows "let R1 = new_request p1 k1 s; s1 = request p1 k1 s;
             R2 = new_request p2 k2 s1; s2 = request p2 k2 s1;
             s3 = trigger_put (release (rid u) s2);
             waiting = put_queue (machine s) @ [R1, R2]
         in users (machine s1) = users (machine s) \<and>
            put_queue (machine s1) = put_queue (machine s) @ [R1] \<and>
            users (machine s2) = users (machine s) \<and>
            put_queue (machine s2) = waiting \<and>
            fire S ReleaseEv (release (rid u) s2) = Continue s3 \<and>
            users (machine s3) =
              remove_rid (rid u) (users (machine s)) @ [(hd waiting)\<lparr>usage_since := Some (now s)\<rparr>] \<and>
            put_queue (machine s3) = tl waiting \<and>
            (put_queue (machine s) = [] \<longrightarrow>
               users (machine s3) =
                 remove_rid (rid u) (users (machine s)) @ [R1\<lparr>usage_since := Some (now s)\<rparr>] \<and>
               put_queue (machine s3) = [R2])"
proof -
  let ?s1 = "request p1 k1 s" and ?s2 = "request p2 k2 (request p1 k1 s)"
  have c: "capacity (machine s) \<le> length (users (machine s))" using assms(1) by simp
  note r1 = request_saturated [OF c, of p1 k1]
  have c1: "capacity (machine ?s1) \<le> length (users (machine ?s1))" using c r1 by simp
  note r2 = request_saturated [OF c1, of p2 k2]
  have g: "length (users (machine ?s2)) \<le> capacity (machine ?s2)" "u \<in> set (users (machine ?s2))"
    "put_queue (machine ?s2) \<noteq> []"
    using assms r1 r2 by simp_all
  note g3 = grant_after_release [OF g]
  show ?thesis using r1 r2 g3 by (simp add: Let_def)
qed

theorem wait_queue_fifo_witness:
  "\<exists>s u. state_of (exec demo 45 (init ())) = Some s \<and>
      length (users (machine s)) = capacity (machine s) \<and> u \<in> set (users (machine s)) \<and>
      (let R1 = new_request (Car 8) (\<lambda>req. (Car_request 8 0 req, None)) s;
           s1 = request (Car 8) (\<lambda>req. (Car_request 8 0 req, None)) s;
           R2 = new_request (Car 9) (\<lambda>req. (Car_request 9 0 req, None)) s1;
           s2 = request (Car 9) (\<lambda>req. (Car_request 9 0 req, None)) s1;
           s3 = trigger_put (release (rid u) s2)
       in users (machine s3) =
            remove_rid (rid u) (users (machine s)) @ [R1\<lparr>usage_since := Some (now s)\<rparr>] \<and>
          put_queue (machine s3) = [R2])"
proof -
  have "case state_of (exec demo 45 (init ())) of None \<Rightarrow> False
        | Some s \<Rightarrow> length (users (machine s)) = capacity (machine s) \<and>
            users (machine s) \<noteq> [] \<and> put_queue (machine s) = []"
    by code_simp
  then obtain s where s: "state_of (exec demo 45 (init ())) = Some s"
    "length (users (machine s)) = capacity (machine s)" "users (machine s) \<noteq> []"
    "put_queue (machine s) = []"
    by (auto split: option.splits)
  have u: "hd (users (machine s)) \<in> set (users (machine s))" using s(3) by simp
  note w = wait_queue_fifo [OF s(2) u, of "Car 8" "\<lambda>req. (Car_request 8 0 req, None)"
        "Car 9" "\<lambda>req. (Car_request 9 0 req, None)" demo, unfolded Let_def]
  from w s(4) have
    "users (machine (trigger_put (release (rid (hd (users (machine s))))
        (request (Car 9) (\<lambda>req. (Car_request 9 0 req, None))
          (request (Car 8) (\<lambda>req. (Car_request 8 0 req, None)) s))))) =
       remove_rid (rid (hd (users (machine s)))) (users (machine s)) @
         [(new_request (Car 8) (\<lambda>req. (Car_request 8 0 req, None)) s)\<lparr>usage_since := Some (now s)\<rparr>] \<and>
     put_queue (machine (trigger_put (release (rid (hd (users (machine s))))
        (request (Car 9) (\<lambda>req. (Car_request 9 0 req, None))
          (request (Car 8) (\<lambda>req. (Car_request 8 0 req, None)) s))))) =
       [new_request (Car 9) (\<lambda>req. (Car_request 9 0 req, None))
          (request (Car 8) (\<lambda>req. (Car_request 8 0 req, None)) s)]"
    by blast
  then show ?thesis unfolding Let_def using s(1,2) u by blast
qed

text \<open>
  C5. The simulation is deterministic. For a fixed sampler, seed state and number of
  steps, every run that the event heap allows, whichever way it keeps its events and
  whichever earliest event it hands out, yields the same \<open>wait_times\<close>,
  \<open>queue_lengths\<close>, \<open>queue_time\<close>, \<open>processed_cars\<close> and \<open>busy_time\<close>; the run
  that \<open>exec\<close> computes is one of them.
\<close>

theorem runs_agree:
  "run S (init g) n (exec S n (init g)) \<and>
   (run S (init g) n r1 \<longrightarrow> run S (init g) n r2 \<longrightarrow> samples r1 = samples r2)"
  using exec_is_run [of S "init g" n] run_sim [of S g n r1] run_sim [of S g n r2]
    osim_samples [of "exec S n (init g)" r1] osim_samples [of "exec S n (init g)" r2]
  by auto

theorem runs_agree_witness:
  "run demo (init ()) 1 (exec demo 1 (init ())) \<and>
   run demo (init ()) 1
     (fire demo (Initialize (Setup_start, None))
        ((init ())\<lparr>now := 0, queue := [(SIM_TIME, URGENT, 3, StopEv),
            (0, URGENT, 2, Initialize (Repair_start, None)),
            (0, URGENT, 1, Initialize (Track, None))]\<rparr>)) \<and>
   samples (exec demo 1 (init ())) =
     samples (fire demo (Initialize (Setup_start, None))
        ((init ())\<lparr>now := 0, queue := [(SIM_TIME, URGENT, 3, StopEv),
            (0, URGENT, 2, Initialize (Repair_start, None)),
            (0, URGENT, 1, Initialize (Track, None))]\<rparr>))"
proof -
  let ?e = "(0, URGENT, 0, Initialize (Setup_start, None)) :: entry"
  let ?q = "[(SIM_TIME, URGENT, 3, StopEv), (0, URGENT, 2, Initialize (Repair_start, None)),
            (0, URGENT, 1, Initialize (Track, None))] :: entry list"
  have q: "queue (init ()) = [?e, (0, URGENT, 1, Initialize (Track, None)),
      (0, URGENT, 2, Initialize (Repair_start, None)), (SIM_TIME, URGENT, 3, StopEv)]"
    by (simp add: init_def env_process_def environment_def schedule_def)
  have "run demo (init ()) 0 (Continue (init ()))" by (rule run_start)
  moreover have "earliest (queue (init ())) ?e"
    unfolding q by (simp add: earliest_def before_def SIM_TIME_def)
  moreover have "mset (queue (init ())) = add_mset ?e (mset ?q)"
    unfolding q by simp
  ultimately have "run demo (init ()) (Suc 0)
      (fire demo (ev_of ?e) ((init ())\<lparr>now := time_of ?e, queue := ?q\<rparr>))"
    by (rule run_step)
  then have r: "run demo (init ()) 1
      (fire demo (Initialize (Setup_start, None)) ((init ())\<lparr>now := 0, queue := ?q\<rparr>))"
    by simp
  show ?thesis
    using runs_agree [of demo "()" 1 "exec demo 1 (init ())"
        "fire demo (Initialize (Setup_start, None)) ((init ())\<lparr>now := 0, queue := ?q\<rparr>)"] r
    by blast
qed



text \<open>
  C7. In every state of every run the accumulated busy time lies between 0 and
  \<open>SIM_TIME * NUM_MACHINES\<close>, so the utilization that \<open>calculate_metrics\<close> reports lies
  in \<open>[0, 1]\<close>.
\<close>

theorem utilization_in_unit_interval:
  "state_of (exec S n (init g)) = Some s \<Longrightarrow>
     0 \<le> busy_time s \<and> busy_time s \<le> SIM_TIME * real NUM_MACHINES \<and>
     (\<exists>m. calculate_metrics s = Inr m \<and> 0 \<le> utilization m \<and> utilization m \<le> 1)"
proof -
  assume "state_of (exec S n (init g)) = Some s"
  then have "run_inv s" by (rule reach_inv)
  then have "0 \<le> busy_time s" "busy_time s \<le> SIM_TIME * real NUM_MACHINES" by (rule busy_le)+
  then show ?thesis
    by (simp add: calculate_metrics_def average_def py_div_def SIM_TIME_def NUM_MACHINES_def)
qed

theorem utilization_in_unit_interval_witness:
  "\<exists>s. state_of (exec demo 60 (init ())) = Some s \<and> busy_time s = 30 \<and>
       (\<exists>m. calculate_metrics s = Inr m \<and> 0 \<le> utilization m \<and> utilization m \<le> 1)"
proof -
  have "case state_of (exec demo 60 (init ())) of None \<Rightarrow> False | Some s \<Rightarrow> busy_time s = 30"
    by code_simp
  then obtain s where s: "state_of (exec demo 60 (init ())) = Some s" "busy_time s = 30"
    by (auto split: option.splits)
  then show ?thesis using utilization_in_unit_interval [of demo 60 "()" s] by auto
qed

text \<open>
  C8. In every state of every run there is one \<open>setup\<close> generator, and the number of
  processed cars is at most its \<open>car_count\<close>; so the reported throughput times the
  horizon is at most the number of cars spawned.
\<close>

theorem processed_cars_le_car_count:
  "state_of (exec S n (init g)) = Some s \<Longrightarrow>
     qsum setup_live s = 1 \<and> processed_cars s \<le> car_count s \<and>
     (\<exists>m. calculate_metrics s = Inr m \<and> throughput m * SIM_TIME \<le> real (car_count s))"
proof -
  assume "state_of (exec S n (init g)) = Some s"
  then have "run_inv s" by (rule reach_inv)
  then have c: "processed_cars s + tot car_live s = car_count s" "qsum setup_live s = 1"
    by (simp_all add: run_inv_def cars_ok_def)
  then have "processed_cars s \<le> car_count s" by simp
  then show ?thesis using c(2)
    by (simp add: calculate_metrics_def average_def py_div_def SIM_TIME_def NUM_MACHINES_def)
qed

theorem processed_cars_le_car_count_witness:
  "\<exists>s. state_of (exec demo 60 (init ())) = Some s \<and> processed_cars s = 1 \<and> car_count s = 3 \<and>
       processed_cars s \<le> car_count s"
proof -
  have "case state_of (exec demo 60 (init ())) of None \<Rightarrow> False
        | Some s \<Rightarrow> processed_cars s = 1 \<and> car_count s = 3"
    by code_simp
  then obtain s where s: "state_of (exec demo 60 (init ())) = Some s"
    "processed_cars s = 1" "car_count s = 3" by (auto split: option.splits)
  then show ?thesis using processed_cars_le_car_count [of demo 60 "()" s] by auto
qed

text \<open>
  C9. With a sampler that keeps the contract of \<open>random\<close>, every delay handed to
  \<open>env.timeout\<close> is non-negative: no step and no run fails with a negative delay.
\<close>

theorem delays_never_negative:
  "sampler_ok S \<Longrightarrow> step S s \<noteq> Failed NegativeDelay \<and> exec S n (init g) \<noteq> Failed NegativeDelay"
proof -
  assume ok: "sampler_ok S"
  have st: "step S s \<noteq> Failed NegativeDelay" for s :: "'a state"
    using fire_not_failed [OF ok] by (auto simp: step_def split: option.splits prod.splits)
  have "exec S n (init g) \<noteq> Failed NegativeDelay"
  proof (induction n)
    case 0
    then show ?case by simp
  next
    case (Suc n)
    then show ?case using st by (cases "exec S n (init g)") simp_all
  qed
  then show ?thesis using st by simp
qed

theorem delays_never_negative_witness:
  "sampler_ok demo \<and> step demo (init ()) \<noteq> Failed NegativeDelay \<and>
   exec demo 20 (init ()) \<noteq> Failed NegativeDelay"
proof -
  have "sampler_ok demo" by (simp add: sampler_ok_def demo_def)
  then show ?thesis using delays_never_negative [of demo "init ()" 20 "()"] by simp
qed

text \<open>
  C10. \<open>calculate_metrics\<close> never fails with a division by zero, and reports an average
  wait time of 0 when no wait time was recorded and an average queue length of 0 when no
  queue length was recorded.
\<close>

theorem empty_samples_average_zero:
  "\<exists>m. calculate_metrics s = Inr m \<and>
       (wait_times s = [] \<longrightarrow> avg_wait_time m = 0) \<and>
       (queue_lengths s = [] \<longrightarrow> avg_queue_length m = 0)"
  by (simp add: calculate_metrics_def average_def py_div_def SIM_TIME_def NUM_MACHINES_def)

theorem empty_samples_average_zero_witness:
  "wait_times (environment ()) = [] \<and> queue_lengths (environment ()) = [] \<and>
   (\<exists>m. calculate_metrics (environment ()) = Inr m \<and>
        avg_wait_time m = 0 \<and> avg_queue_length m = 0)"
  using empty_samples_average_zero [of "environment ()"] by (simp add: environment_def)

end
